theory Spec2Isabelle
  imports Main "HOL-Library.Sublist"
begin

section \<open>JavaScript strings\<close>

text \<open>
  A JavaScript string is modelled as a \<^typ>\<open>string\<close>: a list of characters, each standing for
  the code unit of the same value, so the text ranges over U+0000 .. U+00FF. The string
  methods the program calls are written out below, one definition per method.
\<close>

definition NL :: char where
  "NL = CHR 0x0A"

definition CR :: char where
  "CR = CHR 0x0D"

text \<open>\<^verbatim>\<open>s.startsWith(p)\<close>\<close>

definition startsWith :: "string \<Rightarrow> string \<Rightarrow> bool" where
  "startsWith s p = prefix p s"

text \<open>
  \<^verbatim>\<open>s.indexOf(p)\<close>: the first index at which \<open>p\<close> occurs in \<open>s\<close>; JavaScript's \<open>-1\<close> is
  \<^term>\<open>None\<close>.
\<close>

fun indexOf :: "string \<Rightarrow> string \<Rightarrow> nat option" where
  "indexOf [] p = (if p = [] then Some 0 else None)"
| "indexOf (c # cs) p =
     (if prefix p (c # cs) then Some 0 else map_option Suc (indexOf cs p))"

text \<open>\<^verbatim>\<open>s.split(sep)\<close> for a separator of one character: never an empty list.\<close>

fun split_on :: "char \<Rightarrow> string \<Rightarrow> string list" where
  "split_on sep [] = [[]]"
| "split_on sep (c # cs) =
     (if c = sep then [] # split_on sep cs
      else (case split_on sep cs of
              [] \<Rightarrow> [[c]]
            | line # lines \<Rightarrow> (c # line) # lines))"

text \<open>\<^verbatim>\<open>xs.join(sep)\<close>\<close>

fun join :: "string \<Rightarrow> string list \<Rightarrow> string" where
  "join sep [] = []"
| "join sep [x] = x"
| "join sep (x # y # ys) = x @ sep @ join sep (y # ys)"

text \<open>
  The white space and line terminators that \<^verbatim>\<open>trim\<close>, \<^verbatim>\<open>trimStart\<close> and the regular
  expression class \<^verbatim>\<open>\s\<close> recognise, within U+0000 .. U+00FF: tab, line feed, vertical tab,
  form feed, carriage return, space and the no-break space.
\<close>

definition is_space :: "char \<Rightarrow> bool" where
  "is_space c \<longleftrightarrow>
     c = CHR 0x09 \<or> c = CHR 0x0A \<or> c = CHR 0x0B \<or> c = CHR 0x0C \<or> c = CHR 0x0D \<or>
     c = CHR 0x20 \<or> c = CHR 0xA0"

definition trimStart :: "string \<Rightarrow> string" where
  "trimStart s = dropWhile is_space s"

definition trimEnd :: "string \<Rightarrow> string" where
  "trimEnd s = rev (dropWhile is_space (rev s))"

definition trim :: "string \<Rightarrow> string" where
  "trim s = trimEnd (trimStart s)"

text \<open>\<^verbatim>\<open>s.replace(/c/g, r)\<close> for a pattern of one literal character.\<close>

definition replace_char :: "char \<Rightarrow> string \<Rightarrow> string \<Rightarrow> string" where
  "replace_char c r s = concat (map (\<lambda>x. if x = c then r else [x]) s)"

section \<open>Frame decoding: \<^verbatim>\<open>consumeSseEvents\<close>\<close>

text \<open>
  The result object \<^verbatim>\<open>{ events, buffer: normalized }\<close> of \<^verbatim>\<open>consumeSseEvents\<close>.
\<close>

record sse_result =
  events :: "string list"
  buffer :: string

text \<open>
  The inner \<^verbatim>\<open>for (const line of lines)\<close> loop: a line that starts with \<^verbatim>\<open>data:\<close> is pushed
  onto \<^verbatim>\<open>dataLines\<close>, without the prefix and \<^verbatim>\<open>trimStart\<close>ed.
\<close>

fun collect_data_lines :: "string list \<Rightarrow> string list \<Rightarrow> string list" where
  "collect_data_lines [] dataLines = dataLines"
| "collect_data_lines (line # lines) dataLines =
     (if startsWith line ''data:''
      then collect_data_lines lines (dataLines @ [trimStart (drop (length ''data:'') line)])
      else collect_data_lines lines dataLines)"

lemma indexOf_bound: "indexOf s p = Some i \<Longrightarrow> i + length p \<le> length s"
proof (induction s arbitrary: i)
  case Nil
  then show ?case by (simp split: if_splits)
next
  case (Cons c cs)
  show ?case
  proof (cases "prefix p (c # cs)")
    case True
    with Cons.prems have "i = 0" by simp
    with prefix_length_le [OF True] show ?thesis by simp
  next
    case False
    with Cons.prems obtain j where j: "indexOf cs p = Some j" "i = Suc j" by auto
    from Cons.IH [OF j(1)] j(2) show ?thesis by simp
  qed
qed

text \<open>
  The \<^verbatim>\<open>while ((eventEndIndex = normalized.indexOf("\n\n")) !== -1)\<close> loop, on the
  variables \<^verbatim>\<open>normalized\<close> and \<^verbatim>\<open>events\<close>. A region with no data line pushes nothing
  (\<^verbatim>\<open>continue\<close>).
\<close>

function sse_loop :: "string \<Rightarrow> string list \<Rightarrow> sse_result" where
  "sse_loop normalized evs =
     (case indexOf normalized [NL, NL] of
        None \<Rightarrow> \<lparr>events = evs, buffer = normalized\<rparr>
      | Some eventEndIndex \<Rightarrow>
          (let rawEvent = take eventEndIndex normalized;
               normalized' = drop (eventEndIndex + 2) normalized;
               dataLines = collect_data_lines (split_on NL rawEvent) []
           in if dataLines = [] then sse_loop normalized' evs
              else sse_loop normalized' (evs @ [join [NL] dataLines])))"
  by pat_completeness auto
termination
proof (relation "measure (\<lambda>(normalized, evs). length normalized)")
  show "wf (measure (\<lambda>(normalized, evs). length normalized))" by simp
next
  fix normalized :: string and evs :: "string list" and i rawEvent normalized' dataLines
  assume "indexOf normalized [NL, NL] = Some i" and "normalized' = drop (i + 2) normalized"
  then show "((normalized', evs), normalized, evs)
      \<in> measure (\<lambda>(normalized, evs). length normalized)"
    using indexOf_bound [of normalized "[NL, NL]" i] by simp
next
  fix normalized :: string and evs :: "string list" and i rawEvent normalized' dataLines
  assume "indexOf normalized [NL, NL] = Some i" and "normalized' = drop (i + 2) normalized"
  then show "((normalized', evs @ [join [NL] dataLines]), normalized, evs)
      \<in> measure (\<lambda>(normalized, evs). length normalized)"
    using indexOf_bound [of normalized "[NL, NL]" i] by simp
qed

declare sse_loop.simps [simp del]

text \<open>
  \<^verbatim>\<open>consumeSseEvents(buffer)\<close>: carriage returns are removed
  (\<^verbatim>\<open>buffer.replace(/\r/g, "")\<close>), then the loop runs from an empty event list.
\<close>

definition consumeSseEvents :: "string \<Rightarrow> sse_result" where
  "consumeSseEvents buf = sse_loop (replace_char CR [] buf) []"

text \<open>
  The way \<^verbatim>\<open>sendMessage\<close> drives the decoder over the chunks of a transport:
  \<^verbatim>\<open>buffer += chunk; parsed = consumeSseEvents(buffer); buffer = parsed.buffer\<close>, the events
  of every call collected in order.
\<close>

fun feed_chunks :: "string \<Rightarrow> string list \<Rightarrow> sse_result" where
  "feed_chunks buf [] = \<lparr>events = [], buffer = buf\<rparr>"
| "feed_chunks buf (chunk # chunks) =
     (let parsed = consumeSseEvents (buf @ chunk);
          later = feed_chunks (buffer parsed) chunks
      in \<lparr>events = events parsed @ events later, buffer = buffer later\<rparr>)"

text \<open>
  The payloads one delimited region contributes: the body of the loop, from
  \<^verbatim>\<open>rawEvent.split("\n")\<close> to \<^verbatim>\<open>events.push(dataLines.join("\n"))\<close>.
\<close>

definition region_events :: "string \<Rightarrow> string list" where
  "region_events rawEvent =
     (let dataLines = collect_data_lines (split_on NL rawEvent) []
      in if dataLines = [] then [] else [join [NL] dataLines])"

text \<open>
  The specification's wording of the same step, for comparison: the prefix and one leading
  space are removed from a data line, no more.
\<close>

definition spec_strip_data_prefix :: "string \<Rightarrow> string" where
  "spec_strip_data_prefix line =
     (let rest = drop (length ''data:'') line
      in if prefix '' '' rest then drop 1 rest else rest)"

definition spec_region_payload :: "string \<Rightarrow> string" where
  "spec_region_payload region =
     join [NL] (map spec_strip_data_prefix
       (filter (\<lambda>l. prefix ''data:'' l) (split_on NL region)))"

section \<open>JSON values and their coercions\<close>

text \<open>
  What \<^verbatim>\<open>JSON.parse\<close> returns. A number carries the text that JavaScript prints for it
  (\<^verbatim>\<open>0\<close> for zero of either sign); an object lists each key once. \<^verbatim>\<open>JSON.parse\<close> itself
  belongs to the platform and is a parameter of the client below:
  \<^term>\<open>None\<close> stands for the \<^verbatim>\<open>SyntaxError\<close> it throws.
\<close>

datatype json =
    JNull
  | JBool bool
  | JNum string
  | JStr string
  | JArr "json list"
  | JObj "(string \<times> json) list"

text \<open>The test \<^verbatim>\<open>if (v)\<close> of a value.\<close>

fun truthy :: "json \<Rightarrow> bool" where
  "truthy JNull = False"
| "truthy (JBool b) = b"
| "truthy (JNum n) = (n \<noteq> ''0'')"
| "truthy (JStr s) = (s \<noteq> [])"
| "truthy (JArr xs) = True"
| "truthy (JObj kvs) = True"

text \<open>
  The string that \<^verbatim>\<open>text += v\<close> appends and that \<^verbatim>\<open>obj[v]\<close> uses as the property key,
  \<^term>\<open>None\<close> when the conversion throws a \<^verbatim>\<open>TypeError\<close>. An object is converted by the
  methods \<^verbatim>\<open>valueOf\<close> and \<^verbatim>\<open>toString\<close> that it has or inherits: \<^verbatim>\<open>Object.prototype.valueOf\<close>
  returns the object itself, which is no primitive, and \<^verbatim>\<open>Object.prototype.toString\<close>
  returns \<^verbatim>\<open>[object Object]\<close>; an own property \<^verbatim>\<open>toString\<close> of a parsed object is never a
  function and hides the inherited method, and then no method yields a primitive and the
  conversion throws. An array is converted by \<^verbatim>\<open>Array.prototype.join\<close>, which prints
  \<^verbatim>\<open>null\<close> elements as the empty string and converts the others in turn.
\<close>

fun to_string :: "json \<Rightarrow> string option" where
  "to_string JNull = Some ''null''"
| "to_string (JBool b) = Some (if b then ''true'' else ''false'')"
| "to_string (JNum n) = Some n"
| "to_string (JStr s) = Some s"
| "to_string (JArr xs) =
     map_option (join '','')
       (those (map (\<lambda>x. if x = JNull then Some [] else to_string x) xs))"
| "to_string (JObj kvs) =
     (if ''toString'' \<in> fst ` set kvs then None else Some ''[object Object]'')"

text \<open>
  \<^verbatim>\<open>jsonData.tone\<close>, \<^verbatim>\<open>jsonData.thinking\<close>, \<^verbatim>\<open>jsonData.response\<close>: the own property of an
  object, \<^verbatim>\<open>undefined\<close> (\<^term>\<open>None\<close>) on every other value that is not \<^verbatim>\<open>null\<close>. On
  \<^verbatim>\<open>null\<close> the access throws; the caller handles that case before.
\<close>

fun get_prop :: "json \<Rightarrow> string \<Rightarrow> json option" where
  "get_prop (JObj kvs) k = map_of kvs k"
| "get_prop j k = None"

section \<open>The client: \<^verbatim>\<open>sendMessage\<close>\<close>

text \<open>
  The text accumulators of one entry of \<^verbatim>\<open>responseElements\<close>; the DOM nodes of the entry
  and the throttled rendering read the accumulators and never write them, and are left
  out.
\<close>

record tone_element =
  responseText :: string
  thinkingText :: string

type_synonym response_elements = "string \<rightharpoonup> tone_element"

definition tones :: "string list" where
  "tones = [''friendly'', ''rude'', ''professional'']"

text \<open>\<^verbatim>\<open>responseElements\<close> after \<^verbatim>\<open>tones.forEach\<close> has filled it.\<close>

definition initial_elements :: response_elements where
  "initial_elements =
     map_of (map (\<lambda>tone. (tone, \<lparr>responseText = [], thinkingText = []\<rparr>)) tones)"

definition DONE :: string where
  "DONE = ''[DONE]''"

text \<open>
  \<^verbatim>\<open>responseElements[tone].thinkingText += s\<close> and
  \<^verbatim>\<open>responseElements[tone].responseText += s\<close>.
\<close>

definition append_thinking :: "response_elements \<Rightarrow> string \<Rightarrow> string \<Rightarrow> response_elements" where
  "append_thinking els tone s =
     (case els tone of
        None \<Rightarrow> els
      | Some el \<Rightarrow> els(tone \<mapsto> el\<lparr>thinkingText := thinkingText el @ s\<rparr>))"

definition append_response :: "response_elements \<Rightarrow> string \<Rightarrow> string \<Rightarrow> response_elements" where
  "append_response els tone s =
     (case els tone of
        None \<Rightarrow> els
      | Some el \<Rightarrow> els(tone \<mapsto> el\<lparr>responseText := responseText el @ s\<rparr>))"

text \<open>
  The statements \<^verbatim>\<open>if (jsonData.thinking) { ... }\<close> and \<^verbatim>\<open>if (jsonData.response) { ... }\<close>
  for the entry \<open>key\<close>. The result is the entries as the statement leaves them, and whether
  it threw: \<^verbatim>\<open>+=\<close> reads the accumulator, converts the value, and assigns only after that,
  so a conversion that throws leaves the accumulator as it was.
\<close>

definition handle_thinking ::
  "json \<Rightarrow> string \<Rightarrow> response_elements \<Rightarrow> response_elements \<times> bool" where
  "handle_thinking jsonData key els =
     (case get_prop jsonData ''thinking'' of
        None \<Rightarrow> (els, False)
      | Some thinking \<Rightarrow>
          if truthy thinking then
            (case to_string thinking of
               None \<Rightarrow> (els, True)
             | Some s \<Rightarrow> (append_thinking els key s, False))
          else (els, False))"

definition handle_response ::
  "json \<Rightarrow> string \<Rightarrow> response_elements \<Rightarrow> response_elements \<times> bool" where
  "handle_response jsonData key els =
     (case get_prop jsonData ''response'' of
        None \<Rightarrow> (els, False)
      | Some response \<Rightarrow>
          if truthy response then
            (case to_string response of
               None \<Rightarrow> (els, True)
             | Some s \<Rightarrow> (append_response els key s, False))
          else (els, False))"

text \<open>
  The body of \<^verbatim>\<open>try { ... } catch (e) { console.error(...) }\<close> for one payload that is not
  the sentinel. Whatever throws inside \<^verbatim>\<open>try\<close> ends the handling of the payload, and what
  was assigned before stays: a payload that does not parse, or parses to \<^verbatim>\<open>null\<close> (reading
  \<^verbatim>\<open>.tone\<close> throws), changes nothing; a tone that cannot be converted to a property key
  throws in \<^verbatim>\<open>responseElements[tone]\<close>; a thinking value that cannot be converted throws
  before the response is looked at.
  \<^verbatim>\<open>if (!tone || !responseElements[tone]) continue\<close> skips a payload whose tone is falsy or
  names no entry. (A key that \<^verbatim>\<open>responseElements\<close> inherits, such as \<^verbatim>\<open>constructor\<close>, passes
  that test in JavaScript; the statements that follow then write to the inherited object
  or throw, and the three entries stay as they are, as here.)
\<close>

definition handle_payload ::
  "(string \<Rightarrow> json option) \<Rightarrow> string \<Rightarrow> response_elements \<Rightarrow> response_elements" where
  "handle_payload JSON_parse data els =
     (case JSON_parse data of
        None \<Rightarrow> els
      | Some jsonData \<Rightarrow>
          if jsonData = JNull then els
          else
            (case get_prop jsonData ''tone'' of
               None \<Rightarrow> els
             | Some tone \<Rightarrow>
                 if \<not> truthy tone then els
                 else
                   (case to_string tone of
                      None \<Rightarrow> els
                    | Some key \<Rightarrow>
                        if els key = None then els
                        else
                          (let (els1, thrown) = handle_thinking jsonData key els
                           in if thrown then els1
                              else fst (handle_response jsonData key els1)))))"

text \<open>
  \<^verbatim>\<open>for (const data of parsed.events)\<close>: the loop stops at the sentinel. The flag is
  \<^verbatim>\<open>sawDone\<close>.
\<close>

fun process_events ::
  "(string \<Rightarrow> json option) \<Rightarrow> string list \<Rightarrow> response_elements \<Rightarrow> response_elements \<times> bool" where
  "process_events JSON_parse [] els = (els, False)"
| "process_events JSON_parse (data # rest) els =
     (if data = DONE then (els, True)
      else process_events JSON_parse rest (handle_payload JSON_parse data els))"

text \<open>
  \<^verbatim>\<open>while (true) { const { done, value } = await reader.read(); ... }\<close> over the decoded
  chunks of the transport, the empty list being \<^verbatim>\<open>done\<close>: at the end of input the buffer is
  decoded once more with a closing delimiter appended.
\<close>

fun read_loop ::
  "(string \<Rightarrow> json option) \<Rightarrow> string list \<Rightarrow> string \<Rightarrow> response_elements \<Rightarrow> response_elements" where
  "read_loop JSON_parse [] buf els =
     fst (process_events JSON_parse (events (consumeSseEvents (buf @ [NL, NL]))) els)"
| "read_loop JSON_parse (chunk # chunks) buf els =
     (let parsed = consumeSseEvents (buf @ chunk);
          (els', sawDone) = process_events JSON_parse (events parsed) els
      in if sawDone then els' else read_loop JSON_parse chunks (buffer parsed) els')"

definition stream_exchange :: "(string \<Rightarrow> json option) \<Rightarrow> string list \<Rightarrow> response_elements" where
  "stream_exchange JSON_parse chunks = read_loop JSON_parse chunks [] initial_elements"

text \<open>
  The variant a decoded payload names and the fragments it carries, read off the parsed
  payload alone: the terms in which the properties of the client are stated. A fragment
  is the text of a value that is truthy and can be converted, and empty otherwise.
\<close>

definition frame_tone :: "(string \<Rightarrow> json option) \<Rightarrow> string \<Rightarrow> string option" where
  "frame_tone JSON_parse data =
     (case JSON_parse data of
        None \<Rightarrow> None
      | Some jsonData \<Rightarrow>
          (case get_prop jsonData ''tone'' of
             None \<Rightarrow> None
           | Some tone \<Rightarrow> if truthy tone then to_string tone else None))"

definition fragment :: "json option \<Rightarrow> string" where
  "fragment v =
     (case v of
        None \<Rightarrow> []
      | Some x \<Rightarrow> if truthy x then (case to_string x of None \<Rightarrow> [] | Some s \<Rightarrow> s) else [])"

definition frame_thinking :: "(string \<Rightarrow> json option) \<Rightarrow> string \<Rightarrow> string" where
  "frame_thinking JSON_parse data =
     (case JSON_parse data of
        None \<Rightarrow> []
      | Some jsonData \<Rightarrow> fragment (get_prop jsonData ''thinking''))"

definition frame_response :: "(string \<Rightarrow> json option) \<Rightarrow> string \<Rightarrow> string" where
  "frame_response JSON_parse data =
     (case JSON_parse data of
        None \<Rightarrow> []
      | Some jsonData \<Rightarrow> fragment (get_prop jsonData ''response''))"

text \<open>
  A payload whose thinking value is truthy and cannot be converted to a string: an object
  with a property \<^verbatim>\<open>toString\<close> of its own, or an array that holds one.
\<close>

definition thinking_throws :: "(string \<Rightarrow> json option) \<Rightarrow> string \<Rightarrow> bool" where
  "thinking_throws JSON_parse data =
     (case JSON_parse data of
        None \<Rightarrow> False
      | Some jsonData \<Rightarrow>
          (case get_prop jsonData ''thinking'' of
             None \<Rightarrow> False
           | Some thinking \<Rightarrow> truthy thinking \<and> to_string thinking = None))"

text \<open>
  The specification's \<^verbatim>\<open>responseText\<close> of a variant: the response fragments of the payloads
  that name the variant, in their order.
\<close>

definition spec_response_text :: "(string \<Rightarrow> json option) \<Rightarrow> string \<Rightarrow> string list \<Rightarrow> string" where
  "spec_response_text JSON_parse tone payloads =
     concat (map (frame_response JSON_parse)
       (filter (\<lambda>data. frame_tone JSON_parse data = Some tone) payloads))"

text \<open>
  A finite part of the graph of \<^verbatim>\<open>JSON.parse\<close>, for the concrete exchanges below; every
  other payload used there is not JSON.
\<close>

definition sample_parse :: "string \<Rightarrow> json option" where
  \<open>sample_parse = map_of
     [(''{"tone":"friendly","response":"Hel"}'',
         JObj [(''tone'', JStr ''friendly''), (''response'', JStr ''Hel'')]),
      (''{"tone":"rude","response":"No"}'',
         JObj [(''tone'', JStr ''rude''), (''response'', JStr ''No'')]),
      (''{"tone":"friendly","thinking":"hm"}'',
         JObj [(''tone'', JStr ''friendly''), (''thinking'', JStr ''hm'')]),
      (''{"tone":"angry","response":"Grr"}'',
         JObj [(''tone'', JStr ''angry''), (''response'', JStr ''Grr'')]),
      (''{"response":"lost"}'',
         JObj [(''response'', JStr ''lost'')]),
      (''{"tone":"friendly","response":"lo"}'',
         JObj [(''tone'', JStr ''friendly''), (''response'', JStr ''lo'')]),
      (''{"tone":"friendly","thinking":{"toString":0},"response":"X"}'',
         JObj [(''tone'', JStr ''friendly''),
               (''thinking'', JObj [(''toString'', JNum ''0'')]),
               (''response'', JStr ''X'')])]\<close>

section \<open>The server: \<^verbatim>\<open>handleChatRequest\<close>\<close>

text \<open>
  \<^verbatim>\<open>JSON.stringify\<close> without indentation. A string is quoted with the two-character
  escapes of JSON, and \<^verbatim>\<open>\u00XX\<close> for the other control characters.
\<close>

definition hex_digit :: "nat \<Rightarrow> char" where
  "hex_digit n = ''0123456789abcdef'' ! n"

definition quote_char :: "char \<Rightarrow> string" where
  "quote_char c =
     (if c = CHR 0x08 then [CHR 0x5C, CHR ''b'']
      else if c = CHR 0x09 then [CHR 0x5C, CHR ''t'']
      else if c = CHR 0x0A then [CHR 0x5C, CHR ''n'']
      else if c = CHR 0x0C then [CHR 0x5C, CHR ''f'']
      else if c = CHR 0x0D then [CHR 0x5C, CHR ''r'']
      else if c = CHR 0x22 then [CHR 0x5C, CHR 0x22]
      else if c = CHR 0x5C then [CHR 0x5C, CHR 0x5C]
      else if (of_char c :: nat) < 0x20
        then [CHR 0x5C, CHR ''u'', CHR ''0'', CHR ''0'',
              hex_digit (of_char c div 16), hex_digit (of_char c mod 16)]
      else [c])"

definition quote :: "string \<Rightarrow> string" where
  "quote s = [CHR 0x22] @ concat (map quote_char s) @ [CHR 0x22]"

fun stringify :: "json \<Rightarrow> string" where
  "stringify JNull = ''null''"
| "stringify (JBool b) = (if b then ''true'' else ''false'')"
| "stringify (JNum n) = n"
| "stringify (JStr s) = quote s"
| "stringify (JArr xs) = ''['' @ join '','' (map stringify xs) @ '']''"
| "stringify (JObj kvs) =
     ''{'' @ join '','' (map (\<lambda>(k, v). quote k @ '':'' @ stringify v) kvs) @ ''}''"


definition TONE_PROMPTS :: "string \<Rightarrow> string" where
  "TONE_PROMPTS tone =
     (if tone = ''friendly'' then
        ''You are a warm, friendly, and enthusiastic assistant. Use a casual, upbeat tone with emojis and encouraging language. Provide helpful responses in a cheerful manner.''
      else if tone = ''rude'' then
        ''You are a blunt, sarcastic assistant. Be direct and somewhat dismissive in your responses, but still provide accurate information. Use a condescending tone.''
      else
        ''You are a formal, professional assistant. Provide precise, well-structured responses using formal language. Be thorough and maintain a business-like tone.'')"

text \<open>
  The model API is outside the program. What it does in one exchange is given from
  outside: for each tone whether \<^verbatim>\<open>openai.chat.completions.create\<close> resolves to a stream,
  and what the three streams deliver, in the order of arrival at the event loop. Each
  arrival carries the tone of its stream: a chunk with its \<^verbatim>\<open>chunk.choices[0]?.delta\<close>, the
  end of the stream, at which \<^verbatim>\<open>for await\<close> leaves the loop, or an exception thrown by the
  stream. The consumer is taken to read to the end.
\<close>

record delta =
  reasoning_content :: "string option"
  content :: "string option"

datatype arrival =
    Chunk string "delta option"
  | Ended string
  | Failed string

record upstream =
  opens :: "string \<Rightarrow> bool"
  arrivals :: "arrival list"

text \<open>
  The outbound channel of the \<^verbatim>\<open>ReadableStream\<close>: the chunks enqueued on the controller
  and the state it is left in, closed by \<^verbatim>\<open>controller.close()\<close>, put in error by
  \<^verbatim>\<open>controller.error(error)\<close>, or still open when neither has been called.
\<close>

datatype channel = Open | Closed | Errored

record outbound =
  frames :: "string list"
  channel :: channel

text \<open>\<^verbatim>\<open>delta?.reasoning_content || ""\<close> and \<^verbatim>\<open>delta?.content || ""\<close>\<close>

definition or_empty :: "string option \<Rightarrow> string" where
  "or_empty v = (case v of None \<Rightarrow> [] | Some s \<Rightarrow> s)"

text \<open>The frames one chunk of a stream enqueues: the body of \<^verbatim>\<open>for await\<close>.\<close>

definition chunk_frames :: "string \<Rightarrow> delta option \<Rightarrow> string list" where
  "chunk_frames tone d =
     (let thinking = or_empty (Option.bind d reasoning_content);
          content = or_empty (Option.bind d delta.content)
      in (if thinking \<noteq> []
          then [''data: '' @ stringify (JObj [(''tone'', JStr tone), (''thinking'', JStr thinking)])
                  @ [NL, NL]]
          else []) @
         (if content \<noteq> []
          then [''data: '' @ stringify (JObj [(''tone'', JStr tone), (''response'', JStr content)])
                  @ [NL, NL]]
          else []))"

text \<open>
  \<^verbatim>\<open>start(controller)\<close>: the three \<^verbatim>\<open>for await\<close> loops under \<^verbatim>\<open>Promise.all\<close>, taken in the
  order of arrival, with the tones whose loop is still running. A chunk runs the body of
  its loop. The end of a stream resolves the promise of its loop, and when the last of
  them resolves, \<^verbatim>\<open>Promise.all\<close> resolves and the channel is closed. A stream that throws
  rejects \<^verbatim>\<open>Promise.all\<close>: the channel is put in error, and nothing is enqueued after
  that. A stream whose loop has ended delivers nothing more, and an arrival in its name
  is passed over.
\<close>

fun pump :: "arrival list \<Rightarrow> string list \<Rightarrow> string list \<Rightarrow> outbound" where
  "pump [] running enqueued = \<lparr>frames = enqueued, channel = Open\<rparr>"
| "pump (Chunk tone d # later) running enqueued =
     (if tone \<in> set running then pump later running (enqueued @ chunk_frames tone d)
      else pump later running enqueued)"
| "pump (Ended tone # later) running enqueued =
     (if removeAll tone running = [] then \<lparr>frames = enqueued, channel = Closed\<rparr>
      else pump later (removeAll tone running) enqueued)"
| "pump (Failed tone # later) running enqueued =
     (if tone \<in> set running then \<lparr>frames = enqueued, channel = Errored\<rparr>
      else pump later running enqueued)"

definition multiplex :: "arrival list \<Rightarrow> outbound" where
  "multiplex arrived = pump arrived tones []"

text \<open>
  The \<^verbatim>\<open>Response\<close> returned, and with it the requests made to the model API (the
  \<^verbatim>\<open>messages\<close> of each \<^verbatim>\<open>create\<close> call).
\<close>

datatype response_body =
    JsonText string
  | EventStream outbound

record response =
  status :: nat
  headers :: "(string \<times> string) list"
  body :: response_body

record handled =
  response :: response
  upstream_calls :: "json list list"

definition error_response :: "string \<Rightarrow> response" where
  "error_response message =
     \<lparr>status = 500,
      headers = [(''content-type'', ''application/json'')],
      body = JsonText (stringify (JObj [(''error'', JStr message)]))\<rparr>"

text \<open>
  \<^verbatim>\<open>messages.filter((msg) => msg.role !== "system")\<close>; reading \<^verbatim>\<open>.role\<close> of \<^verbatim>\<open>null\<close>
  throws (\<^term>\<open>None\<close>).
\<close>

definition not_system :: "json \<Rightarrow> bool option" where
  "not_system msg =
     (if msg = JNull then None
      else Some (get_prop msg ''role'' \<noteq> Some (JStr ''system'')))"

fun filter_messages :: "json list \<Rightarrow> json list option" where
  "filter_messages [] = Some []"
| "filter_messages (msg # msgs) =
     (case not_system msg of
        None \<Rightarrow> None
      | Some keep \<Rightarrow>
          (case filter_messages msgs of
             None \<Rightarrow> None
           | Some kept \<Rightarrow> Some (if keep then msg # kept else kept)))"

text \<open>
  \<^verbatim>\<open>const { messages = [] } = await request.json()\<close> and the filter. The argument is the
  parsed body, \<^term>\<open>None\<close> when \<^verbatim>\<open>request.json()\<close> rejects. Destructuring \<^verbatim>\<open>null\<close> throws,
  and so does \<^verbatim>\<open>.filter\<close> on anything but an array.
\<close>

definition user_messages :: "json option \<Rightarrow> json list option" where
  "user_messages requestBody =
     (case requestBody of
        None \<Rightarrow> None
      | Some b \<Rightarrow>
          if b = JNull then None
          else
            (case (case get_prop b ''messages'' of None \<Rightarrow> JArr [] | Some m \<Rightarrow> m) of
               JArr messages \<Rightarrow> filter_messages messages
             | _ \<Rightarrow> None))"

text \<open>
  The handler. Every exception inside \<^verbatim>\<open>try\<close> ends in the \<^verbatim>\<open>catch\<close> that answers
  \<^verbatim>\<open>Failed to process request\<close>. The three \<^verbatim>\<open>create\<close> calls are all made before
  \<^verbatim>\<open>Promise.all\<close> waits for them.
\<close>

definition handleChatRequest :: "json option \<Rightarrow> string option \<Rightarrow> upstream \<Rightarrow> handled" where
  "handleChatRequest requestBody Z_AI_API_KEY up =
     (case user_messages requestBody of
        None \<Rightarrow>
          \<lparr>response = error_response ''Failed to process request'', upstream_calls = []\<rparr>
      | Some userMessages \<Rightarrow>
          if (case Z_AI_API_KEY of None \<Rightarrow> True | Some apiKey \<Rightarrow> apiKey = [] \<or> trim apiKey = [])
          then \<lparr>response =
                  error_response ''Server configuration error: Z_AI_API_KEY is not set'',
                upstream_calls = []\<rparr>
          else
            (let calls =
                   map (\<lambda>tone.
                          JObj [(''role'', JStr ''system''), (''content'', JStr (TONE_PROMPTS tone))]
                            # userMessages)
                       tones
             in if list_all (opens up) tones
                then \<lparr>response =
                        \<lparr>status = 200,
                         headers = [(''content-type'', ''text/event-stream; charset=utf-8''),
                                    (''cache-control'', ''no-cache''),
                                    (''connection'', ''keep-alive'')],
                         body = EventStream (multiplex (arrivals up))\<rparr>,
                      upstream_calls = calls\<rparr>
                else \<lparr>response = error_response ''Failed to process request'',
                      upstream_calls = calls\<rparr>))"

text \<open>
  A token frame: \<^verbatim>\<open>data: \<close>, the JSON text of an object that gives a tone and one fragment
  of thinking or of response, and a blank line.
\<close>

definition token_frame :: "string \<Rightarrow> string \<Rightarrow> string \<Rightarrow> string" where
  "token_frame tone kind text =
     ''data: '' @ stringify (JObj [(''tone'', JStr tone), (kind, JStr text)]) @ [NL, NL]"

text \<open>The specification's terminal sentinel frame, \<^verbatim>\<open>encodeTerminal()\<close>.\<close>

definition spec_terminal_frame :: string where
  "spec_terminal_frame = ''data: [DONE]'' @ [NL, NL]"

text \<open>
  What a frame carries: the text between its \<^verbatim>\<open>data: \<close> prefix and the blank line that
  ends it.
\<close>

definition frame_payload :: "string \<Rightarrow> string" where
  "frame_payload frame = drop (length ''data: '') (take (length frame - 2) frame)"

text \<open>A JSON object printed on one line, as \<^verbatim>\<open>JSON.stringify\<close> prints it.\<close>

definition json_line :: "string \<Rightarrow> bool" where
  "json_line j \<longleftrightarrow> NL \<notin> set j \<and> CR \<notin> set j \<and> prefix ''{'' j"

section \<open>The markdown renderer: \<^verbatim>\<open>parseMarkdown\<close>\<close>

text \<open>
  \<^verbatim>\<open>escapeHtml\<close>: five global replacements, the ampersand first.
\<close>

definition escapeHtml :: "string \<Rightarrow> string" where
  "escapeHtml unsafe =
     replace_char (CHR 0x27) ''&#039;''
       (replace_char (CHR 0x22) ''&quot;''
         (replace_char CHR ''>'' ''&gt;''
           (replace_char CHR ''<'' ''&lt;''
             (replace_char CHR ''&'' ''&amp;'' unsafe))))"

text \<open>
  The character classes of the patterns: \<^verbatim>\<open>\w\<close>, \<^verbatim>\<open>\d\<close>, and the line terminators that
  \<^verbatim>\<open>.\<close> does not match and that \<^verbatim>\<open>^\<close> and \<^verbatim>\<open>$\<close> recognise under the \<^verbatim>\<open>m\<close> flag.
\<close>

definition is_word :: "char \<Rightarrow> bool" where
  "is_word c \<longleftrightarrow>
     (let n = (of_char c :: nat)
      in (48 \<le> n \<and> n \<le> 57) \<or> (65 \<le> n \<and> n \<le> 90) \<or> n = 95 \<or> (97 \<le> n \<and> n \<le> 122))"

definition is_digit :: "char \<Rightarrow> bool" where
  "is_digit c \<longleftrightarrow> (let n = (of_char c :: nat) in 48 \<le> n \<and> n \<le> 57)"

definition is_line_terminator :: "char \<Rightarrow> bool" where
  "is_line_terminator c \<longleftrightarrow> c = NL \<or> c = CR"

text \<open>
  \<^verbatim>\<open>^\<close> under the \<^verbatim>\<open>m\<close> flag, from the character before the position (\<^term>\<open>None\<close> at the
  start of the input).
\<close>

definition at_line_start :: "char option \<Rightarrow> bool" where
  "at_line_start prev = (case prev of None \<Rightarrow> True | Some p \<Rightarrow> is_line_terminator p)"

text \<open>\<^verbatim>\<open>s.toLowerCase()\<close>, within U+0000 .. U+00FF.\<close>

definition lower :: "char \<Rightarrow> char" where
  "lower c =
     (let n = (of_char c :: nat)
      in if (65 \<le> n \<and> n \<le> 90) \<or> (192 \<le> n \<and> n \<le> 222 \<and> n \<noteq> 215)
         then char_of (n + 32) else c)"

definition toLowerCase :: "string \<Rightarrow> string" where
  "toLowerCase s = map lower s"

text \<open>
  \<^verbatim>\<open>html.replace(/pattern/g, replacement)\<close>. A pattern is given by what it does at one
  position: from the character before and the text from the position on, the replacement
  and the length of the match, or \<^term>\<open>None\<close>. The scan goes from left to right and resumes
  after each match; every pattern of the renderer consumes at least one character.
\<close>

type_synonym matcher = "char option \<Rightarrow> string \<Rightarrow> (string \<times> nat) option"

fun gsub :: "matcher \<Rightarrow> char option \<Rightarrow> string \<Rightarrow> string" where
  "gsub m prev [] = []"
| "gsub m prev (c # cs) =
     (case m prev (c # cs) of
        Some (replacement, Suc n) \<Rightarrow> replacement @ gsub m (Some ((c # cs) ! n)) (drop n cs)
      | _ \<Rightarrow> c # gsub m (Some c) cs)"

text \<open>
  \<^verbatim>\<open>/```(\w+)?\n([\s\S]*?)```/\<close> with its callback: the fence, the longest run of word
  characters, a line feed, and the text up to the first closing fence, which is trimmed
  and wrapped.
\<close>

definition fence_match :: matcher where
  "fence_match prev s =
     (if prefix ''```'' s then
        (case dropWhile is_word (drop 3 s) of
           [] \<Rightarrow> None
         | c # code \<Rightarrow>
             if c = NL then
               (case indexOf code ''```'' of
                  None \<Rightarrow> None
                | Some i \<Rightarrow>
                    Some (''<pre><code>'' @ trim (take i code) @ ''</code></pre>'',
                          length s - length code + i + 3))
             else None)
      else None)"

text \<open>
  The patterns of the shape \<^verbatim>\<open>/O([^c]+)C/\<close> with replacement \<^verbatim>\<open>B$1A\<close>: inline code, bold and
  italic. The run of characters other than \<open>c\<close> is the longest one, and it is not empty.
\<close>

definition delimited :: "string \<Rightarrow> char \<Rightarrow> string \<Rightarrow> string \<Rightarrow> string \<Rightarrow> matcher" where
  "delimited opening c closing open_tag close_tag prev s =
     (if prefix opening s then
        (let inner = takeWhile (\<lambda>x. x \<noteq> c) (drop (length opening) s)
         in if inner \<noteq> [] \<and> prefix closing (drop (length opening + length inner) s)
            then Some (open_tag @ inner @ close_tag, length opening + length inner + length closing)
            else None)
      else None)"

text \<open>\<^verbatim>\<open>/^### (.*$)/gim\<close> and its two shorter forms.\<close>

definition header_match :: "string \<Rightarrow> string \<Rightarrow> string \<Rightarrow> matcher" where
  "header_match marker open_tag close_tag prev s =
     (if at_line_start prev \<and> prefix marker s then
        (let inner = takeWhile (\<lambda>x. \<not> is_line_terminator x) (drop (length marker) s)
         in Some (open_tag @ inner @ close_tag, length marker + length inner))
      else None)"

text \<open>
  The callback of the link pattern: \<^verbatim>\<open>safeUrl\<close>, and the anchor it returns (its parameter
  \<^verbatim>\<open>text\<close> is \<open>label\<close> here).
\<close>

definition sanitize_url :: "string \<Rightarrow> string" where
  "sanitize_url url =
     (let trimmedUrl = trim url;
          lowerUrl = toLowerCase trimmedUrl;
          isAllowedScheme =
            (startsWith lowerUrl ''http://'' \<or> startsWith lowerUrl ''https://'' \<or>
             startsWith lowerUrl ''mailto:'');
          isRelativeOrHash =
            (startsWith trimmedUrl ''/'' \<or> startsWith trimmedUrl ''#'' \<or>
             indexOf trimmedUrl '':'' = None)
      in if isAllowedScheme \<or> isRelativeOrHash then trimmedUrl else ''#'')"

definition link_replacement :: "string \<Rightarrow> string \<Rightarrow> string" where
  \<open>link_replacement label url =
     ''<a href="'' @ sanitize_url url @ ''" target="_blank" rel="noopener noreferrer">'' @
     label @ ''</a>''\<close>

text \<open>\<^verbatim>\<open>/\[([^\]]+)\]\(([^)]+)\)/g\<close>\<close>

definition link_match :: matcher where
  "link_match prev s =
     (if prefix ''['' s then
        (let label = takeWhile (\<lambda>x. x \<noteq> CHR '']'') (drop 1 s);
             s1 = drop (1 + length label) s
         in if label \<noteq> [] \<and> prefix ''](''  s1 then
              (let url = takeWhile (\<lambda>x. x \<noteq> CHR '')'') (drop 2 s1)
               in if url \<noteq> [] \<and> prefix '')'' (drop (2 + length url) s1)
                  then Some (link_replacement label url, length label + length url + 4)
                  else None)
            else None)
      else None)"

text \<open>
  The tests \<^verbatim>\<open>/^[*-] (.+)$/\<close> and \<^verbatim>\<open>/^\d+\. (.+)$/\<close> on one line, with the group they
  capture, and the loop over the lines with its flags \<^verbatim>\<open>inUl\<close> and \<^verbatim>\<open>inOl\<close>.
\<close>

definition ul_item :: "string \<Rightarrow> string option" where
  "ul_item line =
     (if (prefix ''* '' line \<or> prefix ''- '' line) \<and> drop 2 line \<noteq> [] \<and>
         list_all (\<lambda>x. \<not> is_line_terminator x) (drop 2 line)
      then Some (drop 2 line) else None)"

definition ol_item :: "string \<Rightarrow> string option" where
  "ol_item line =
     (let digits = takeWhile is_digit line;
          s1 = drop (length digits) line
      in if digits \<noteq> [] \<and> prefix ''. '' s1 \<and> drop 2 s1 \<noteq> [] \<and>
            list_all (\<lambda>x. \<not> is_line_terminator x) (drop 2 s1)
         then Some (drop 2 s1) else None)"

fun list_loop :: "string list \<Rightarrow> bool \<Rightarrow> bool \<Rightarrow> string list \<Rightarrow> string list" where
  "list_loop [] inUl inOl result =
     result @ (if inUl then [''</ul>''] else []) @ (if inOl then [''</ol>''] else [])"
| "list_loop (line # lines) inUl inOl result =
     (case ul_item line of
        Some item \<Rightarrow>
          list_loop lines True inOl
            (result @ (if inUl then [] else [''<ul>'']) @ [''<li>'' @ item @ ''</li>''])
      | None \<Rightarrow>
          (case ol_item line of
             Some item \<Rightarrow>
               list_loop lines inUl True
                 (result @ (if inOl then [] else [''<ol>'']) @ [''<li>'' @ item @ ''</li>''])
           | None \<Rightarrow>
               list_loop lines False False
                 (result @ (if inUl then [''</ul>''] else []) @
                    (if inOl then [''</ol>''] else []) @ [line])))"

text \<open>\<^verbatim>\<open>/^> (.+)$/gim\<close>\<close>

definition blockquote_match :: matcher where
  "blockquote_match prev s =
     (if at_line_start prev \<and> prefix ''> '' s then
        (let inner = takeWhile (\<lambda>x. \<not> is_line_terminator x) (drop 2 s)
         in if inner \<noteq> []
            then Some (''<blockquote>'' @ inner @ ''</blockquote>'', 2 + length inner)
            else None)
      else None)"

text \<open>
  \<^verbatim>\<open>replaceNewlinesOutsideBlocks\<close>: \<^verbatim>\<open>blockRegex\<close> at one position (an opening tag and the
  text up to the first closing tag, for each of the three alternatives), the loop of
  \<^verbatim>\<open>blockRegex.exec\<close> that cuts the text into segments, and the line breaks put into the
  segments that are not blocks.
\<close>

definition enclosed :: "string \<Rightarrow> string \<Rightarrow> string \<Rightarrow> nat option" where
  "enclosed opening closing s =
     (if prefix opening s
      then map_option (\<lambda>i. length opening + i + length closing)
             (indexOf (drop (length opening) s) closing)
      else None)"

definition block_match :: "string \<Rightarrow> nat option" where
  "block_match s =
     (case enclosed ''<pre><code>'' ''</code></pre>'' s of
        Some n \<Rightarrow> Some n
      | None \<Rightarrow>
          (case enclosed ''<ul>'' ''</ul>'' s of
             Some n \<Rightarrow> Some n
           | None \<Rightarrow> enclosed ''<ol>'' ''</ol>'' s))"

record segment =
  segment_text :: string
  safe :: bool

fun segments_loop :: "string \<Rightarrow> string \<Rightarrow> segment list" where
  "segments_loop pending [] =
     (if pending \<noteq> [] then [\<lparr>segment_text = pending, safe = False\<rparr>] else [])"
| "segments_loop pending (c # cs) =
     (case block_match (c # cs) of
        Some (Suc n) \<Rightarrow>
          (if pending \<noteq> [] then [\<lparr>segment_text = pending, safe = False\<rparr>] else []) @
          \<lparr>segment_text = take (Suc n) (c # cs), safe = True\<rparr> # segments_loop [] (drop n cs)
      | _ \<Rightarrow> segments_loop (pending @ [c]) cs)"

definition render_segments :: "segment list \<Rightarrow> string" where
  "render_segments segs =
     concat (map (\<lambda>seg. if safe seg then segment_text seg
                         else replace_char NL ''<br>'' (segment_text seg)) segs)"

definition replaceNewlinesOutsideBlocks :: "string \<Rightarrow> string" where
  "replaceNewlinesOutsideBlocks htmlContent = render_segments (segments_loop [] htmlContent)"

text \<open>
  The substitutions of \<^verbatim>\<open>parseMarkdown\<close> in their order, on the escaped text, and the
  renderer itself.
\<close>

definition markdown_substitutions :: "string \<Rightarrow> string" where
  "markdown_substitutions escaped =
     (let html = gsub fence_match None escaped;
          html = gsub (delimited ''`'' CHR ''`'' ''`'' ''<code>'' ''</code>'') None html;
          html = gsub (delimited ''**'' CHR ''*'' ''**'' ''<strong>'' ''</strong>'') None html;
          html = gsub (delimited ''__'' CHR ''_'' ''__'' ''<strong>'' ''</strong>'') None html;
          html = gsub (delimited ''*'' CHR ''*'' ''*'' ''<em>'' ''</em>'') None html;
          html = gsub (delimited ''_'' CHR ''_'' ''_'' ''<em>'' ''</em>'') None html;
          html = gsub (header_match ''### '' ''<h3>'' ''</h3>'') None html;
          html = gsub (header_match ''## '' ''<h2>'' ''</h2>'') None html;
          html = gsub (header_match ''# '' ''<h1>'' ''</h1>'') None html;
          html = gsub link_match None html;
          html = join [NL] (list_loop (split_on NL html) False False []);
          html = gsub blockquote_match None html
      in replaceNewlinesOutsideBlocks html)"

definition parseMarkdown :: "string \<Rightarrow> string" where
  "parseMarkdown text = markdown_substitutions (escapeHtml text)"

text \<open>
  The characters of HTML with their entities, one by one: the terms in which escaping is
  stated.
\<close>

definition html_entity :: "char \<Rightarrow> string" where
  "html_entity c =
     (if c = CHR ''&'' then ''&amp;''
      else if c = CHR ''<'' then ''&lt;''
      else if c = CHR ''>'' then ''&gt;''
      else if c = CHR 0x22 then ''&quot;''
      else if c = CHR 0x27 then ''&#039;''
      else [c])"





text \<open>
  The invariant of the substitutions: a text in which no \<^verbatim>\<open><\<close> is followed by \<^verbatim>\<open>p\<close>, and a
  replacement that starts and ends as a tag does.
\<close>

definition pre_free :: "string \<Rightarrow> bool" where
  "pre_free s \<longleftrightarrow> \<not> sublist ''<p'' s"


text \<open>A text without an apostrophe.\<close>

definition plain :: "string \<Rightarrow> bool" where
  "plain s \<longleftrightarrow> CHR 0x27 \<notin> set s"

section \<open>Properties of the frame decoder\<close>

lemma replace_char_nil: "replace_char c [] s = filter (\<lambda>x. x \<noteq> c) s"
  by (induction s) (simp_all add: replace_char_def)

lemma sse_loop_None:
  "indexOf n [NL, NL] = None \<Longrightarrow> sse_loop n evs = \<lparr>events = evs, buffer = n\<rparr>"
  by (subst sse_loop.simps) simp

lemma sse_loop_Some:
  "indexOf n [NL, NL] = Some i \<Longrightarrow>
     sse_loop n evs = sse_loop (drop (i + 2) n) (evs @ region_events (take i n))"
  by (subst sse_loop.simps) (simp add: region_events_def Let_def)

lemma sse_loop_acc:
  "sse_loop n evs = \<lparr>events = evs @ events (sse_loop n []), buffer = buffer (sse_loop n [])\<rparr>"
proof (induction "length n" arbitrary: n evs rule: less_induct)
  case less
  show ?case
  proof (cases "indexOf n [NL, NL]")
    case None
    then show ?thesis by (simp add: sse_loop_None)
  next
    case (Some i)
    from indexOf_bound [OF Some] have "length (drop (i + 2) n) < length n" by simp
    from less [OF this] have
      "sse_loop (drop (i + 2) n) e =
         \<lparr>events = e @ events (sse_loop (drop (i + 2) n) []),
          buffer = buffer (sse_loop (drop (i + 2) n) [])\<rparr>" for e .
    from this [of "evs @ region_events (take i n)"] this [of "region_events (take i n)"]
    show ?thesis by (simp add: sse_loop_Some [OF Some])
  qed
qed

lemma indexOf_append:
  "indexOf a p = Some i \<Longrightarrow> indexOf (a @ b) p = Some i"
proof (induction a arbitrary: i)
  case Nil
  then show ?case by (cases b) (auto split: if_splits)
next
  case (Cons c cs)
  show ?case
  proof (cases "prefix p (c # cs)")
    case True
    then have "prefix p ((c # cs) @ b)" by (rule prefix_prefix)
    with True Cons.prems show ?thesis by simp
  next
    case False
    with Cons.prems obtain j where j: "indexOf cs p = Some j" "i = Suc j" by auto
    from indexOf_bound [OF j(1)] have "length p \<le> length cs" by simp
    then have "\<not> prefix p ((c # cs) @ b)" using False
      by (metis append_eq_append_conv_if append_take_drop_id le_SucI length_Cons prefixE prefixI)
    with Cons.IH [OF j(1)] j(2) show ?thesis by simp
  qed
qed

lemma sse_loop_append:
  "sse_loop (a @ b) [] =
     \<lparr>events = events (sse_loop a []) @ events (sse_loop (buffer (sse_loop a []) @ b) []),
      buffer = buffer (sse_loop (buffer (sse_loop a []) @ b) [])\<rparr>"
proof (induction "length a" arbitrary: a rule: less_induct)
  case less
  show ?case
  proof (cases "indexOf a [NL, NL]")
    case None
    then show ?thesis by (simp add: sse_loop_None)
  next
    case (Some i)
    from indexOf_bound [OF Some] have len: "i + 2 \<le> length a" by simp
    then have "length (drop (i + 2) a) < length a" by simp
    note IH = less [OF this]
    have ab: "indexOf (a @ b) [NL, NL] = Some i" using Some by (rule indexOf_append)
    have "sse_loop (a @ b) [] = sse_loop (drop (i + 2) a @ b) (region_events (take i a))"
      using len by (simp add: sse_loop_Some [OF ab])
    also have "\<dots> = \<lparr>events = region_events (take i a) @ events (sse_loop (drop (i + 2) a @ b) []),
        buffer = buffer (sse_loop (drop (i + 2) a @ b) [])\<rparr>"
      by (subst sse_loop_acc) simp
    finally have l: "sse_loop (a @ b) [] =
      \<lparr>events = region_events (take i a) @ events (sse_loop (drop (i + 2) a @ b) []),
        buffer = buffer (sse_loop (drop (i + 2) a @ b) [])\<rparr>" .
    have r: "sse_loop a [] =
      \<lparr>events = region_events (take i a) @ events (sse_loop (drop (i + 2) a) []),
        buffer = buffer (sse_loop (drop (i + 2) a) [])\<rparr>"
      by (subst sse_loop_Some [OF Some], subst sse_loop_acc) simp
    show ?thesis using IH by (simp add: l r)
  qed
qed

lemma sse_loop_buffer_set: "set (buffer (sse_loop n evs)) \<subseteq> set n"
proof (induction "length n" arbitrary: n evs rule: less_induct)
  case less
  show ?case
  proof (cases "indexOf n [NL, NL]")
    case None
    then show ?thesis by (simp add: sse_loop_None)
  next
    case (Some i)
    from indexOf_bound [OF Some] have "length (drop (i + 2) n) < length n" by simp
    from less [OF this] have "set (buffer (sse_loop (drop (i + 2) n) e)) \<subseteq> set (drop (i + 2) n)" for e .
    then show ?thesis using set_drop_subset [of "i + 2" n] by (auto simp: sse_loop_Some [OF Some])
  qed
qed

lemma sse_loop_buffer_settled:
  "indexOf (buffer (sse_loop n evs)) [NL, NL] = None"
proof (induction "length n" arbitrary: n evs rule: less_induct)
  case less
  show ?case
  proof (cases "indexOf n [NL, NL]")
    case None
    then show ?thesis by (simp add: sse_loop_None)
  next
    case (Some i)
    from indexOf_bound [OF Some] have "length (drop (i + 2) n) < length n" by simp
    from less [OF this] show ?thesis by (simp add: sse_loop_Some [OF Some])
  qed
qed


lemma replace_char_append: "replace_char c r (a @ b) = replace_char c r a @ replace_char c r b"
  by (simp add: replace_char_def)

lemma filter_id_notin: "c \<notin> set s \<Longrightarrow> replace_char c r s = s"
  by (induction s) (auto simp: replace_char_def)

lemma consume_buffer_no_CR: "CR \<notin> set (buffer (consumeSseEvents x))"
  using sse_loop_buffer_set [of "replace_char CR [] x" "[]"]
  by (auto simp: consumeSseEvents_def replace_char_nil)

lemma consume_append:
  "consumeSseEvents (x @ y) =
     \<lparr>events = events (consumeSseEvents x) @
        events (consumeSseEvents (buffer (consumeSseEvents x) @ y)),
      buffer = buffer (consumeSseEvents (buffer (consumeSseEvents x) @ y))\<rparr>"
proof -
  have "replace_char CR [] (buffer (consumeSseEvents x)) = buffer (consumeSseEvents x)"
    by (rule filter_id_notin) (rule consume_buffer_no_CR)
  then show ?thesis
    using sse_loop_append [of "replace_char CR [] x" "replace_char CR [] y"]
    by (simp add: consumeSseEvents_def replace_char_append)
qed

lemma consume_buffer_settled:
  "consumeSseEvents (buffer (consumeSseEvents x)) =
     \<lparr>events = [], buffer = buffer (consumeSseEvents x)\<rparr>"
proof -
  have "replace_char CR [] (buffer (consumeSseEvents x)) = buffer (consumeSseEvents x)"
    by (rule filter_id_notin) (rule consume_buffer_no_CR)
  moreover have "indexOf (buffer (consumeSseEvents x)) [NL, NL] = None"
    by (simp add: consumeSseEvents_def sse_loop_buffer_settled)
  ultimately show ?thesis
    by (simp add: consumeSseEvents_def [of "buffer (consumeSseEvents x)"] sse_loop_None)
qed

lemma feed_chunks_settled:
  "consumeSseEvents buf = \<lparr>events = [], buffer = buf\<rparr> \<Longrightarrow>
     feed_chunks buf chunks = consumeSseEvents (buf @ concat chunks)"
proof (induction chunks arbitrary: buf)
  case Nil
  then show ?case by simp
next
  case (Cons chunk chunks)
  define parsed where "parsed = consumeSseEvents (buf @ chunk)"
  have "consumeSseEvents (buffer parsed) = \<lparr>events = [], buffer = buffer parsed\<rparr>"
    unfolding parsed_def by (rule consume_buffer_settled)
  from Cons.IH [OF this]
  have IH: "feed_chunks (buffer parsed) chunks = consumeSseEvents (buffer parsed @ concat chunks)" .
  have "consumeSseEvents ((buf @ chunk) @ concat chunks) =
      \<lparr>events = events parsed @ events (consumeSseEvents (buffer parsed @ concat chunks)),
       buffer = buffer (consumeSseEvents (buffer parsed @ concat chunks))\<rparr>"
    unfolding parsed_def by (rule consume_append)
  then show ?case
    by (simp add: Let_def IH parsed_def [symmetric])
qed

lemma collect_data_lines_eq:
  "collect_data_lines ls acc =
     acc @ map (\<lambda>l. trimStart (drop 5 l)) (filter (\<lambda>l. prefix ''data:'' l) ls)"
  by (induction ls arbitrary: acc) (simp_all add: startsWith_def eval_nat_numeral)

text \<open>
  C2. Decoding is independent of the chunk boundaries: feeding the chunks one by one, each
  call given the previous remainder followed by the new chunk, yields the same events in
  the same order and the same final remainder as one call on the whole text.
\<close>

theorem chunk_boundary_independence:
  "feed_chunks [] chunks = consumeSseEvents (concat chunks)"
proof -
  have "consumeSseEvents [] = \<lparr>events = [], buffer = []\<rparr>"
    by (simp add: consumeSseEvents_def replace_char_def sse_loop_None)
  from feed_chunks_settled [OF this] show ?thesis by simp
qed


lemma consume_region:
  assumes "CR \<notin> set region"
    and "indexOf (region @ [NL, NL]) [NL, NL] = Some (length region)"
  shows "consumeSseEvents (region @ [NL, NL] @ rest) =
     \<lparr>events = region_events region @ events (consumeSseEvents rest),
      buffer = buffer (consumeSseEvents rest)\<rparr>"
proof -
  have norm: "replace_char CR [] (region @ [NL, NL]) = region @ [NL, NL]"
    using assms(1) by (intro filter_id_notin) (simp add: NL_def CR_def)
  have "sse_loop (region @ [NL, NL]) [] = sse_loop [] (region_events region)"
    by (simp add: sse_loop_Some [OF assms(2)])
  also have "\<dots> = \<lparr>events = region_events region, buffer = []\<rparr>"
    by (simp add: sse_loop_None)
  finally have one: "consumeSseEvents (region @ [NL, NL]) =
      \<lparr>events = region_events region, buffer = []\<rparr>"
    by (simp add: consumeSseEvents_def norm)
  have "consumeSseEvents ((region @ [NL, NL]) @ rest) =
     \<lparr>events = region_events region @ events (consumeSseEvents rest),
      buffer = buffer (consumeSseEvents rest)\<rparr>"
    by (subst consume_append) (simp add: one)
  then show ?thesis by simp
qed

lemma indexOf_no_NL:
  "NL \<notin> set region \<Longrightarrow> indexOf (region @ [NL, NL]) [NL, NL] = Some (length region)"
  by (induction region) auto

lemma split_on_no_sep: "sep \<notin> set s \<Longrightarrow> split_on sep s = [s]"
  by (induction s) auto

text \<open>
  C7, as the program has it. For a region that ends at the first blank line, the decoder
  keeps exactly the lines that start with \<^verbatim>\<open>data:\<close>, removes the prefix and all leading
  white space of what follows (not one space only), joins the kept lines with one line
  feed, and yields that as one payload; a region without a data line yields no payload.
\<close>

theorem region_decoded:
  assumes "CR \<notin> set region"
    and "indexOf (region @ [NL, NL]) [NL, NL] = Some (length region)"
  shows "events (consumeSseEvents (region @ [NL, NL] @ rest)) =
     (let kept = filter (\<lambda>l. prefix ''data:'' l) (split_on NL region);
          stripped = map (\<lambda>l. dropWhile is_space (drop 5 l)) kept
      in (if kept = [] then [] else [join [NL] stripped]) @ events (consumeSseEvents rest))"
proof -
  have "events (consumeSseEvents (region @ [NL, NL] @ rest)) =
      region_events region @ events (consumeSseEvents rest)"
    by (simp only: consume_region [OF assms] sse_result.simps)
  then show ?thesis
    by (simp add: region_events_def collect_data_lines_eq Let_def trimStart_def)
qed


theorem region_decoded_witness:
  "CR \<notin> set ''data: a\<newline>id: 7\<newline>data:   b'' \<and>
   indexOf (''data: a\<newline>id: 7\<newline>data:   b'' @ [NL, NL]) [NL, NL] =
     Some (length ''data: a\<newline>id: 7\<newline>data:   b'') \<and>
   events (consumeSseEvents
      (''data: a\<newline>id: 7\<newline>data:   b'' @ [NL, NL] @ ''data: c\<newline>\<newline>'')) =
     [''a\<newline>b'', ''c'']"
proof -
  have h1: "CR \<notin> set ''data: a\<newline>id: 7\<newline>data:   b''"
    by code_simp
  have h2: "indexOf (''data: a\<newline>id: 7\<newline>data:   b'' @ [NL, NL]) [NL, NL] =
     Some (length ''data: a\<newline>id: 7\<newline>data:   b'')"
    by code_simp
  have v: "(let kept = filter (\<lambda>l. prefix ''data:'' l)
                (split_on NL ''data: a\<newline>id: 7\<newline>data:   b'');
          stripped = map (\<lambda>l. dropWhile is_space (drop 5 l)) kept
      in (if kept = [] then [] else [join [NL] stripped]) @
         events (consumeSseEvents ''data: c\<newline>\<newline>'')) = [''a\<newline>b'', ''c'']"
    by code_simp
  from region_decoded [OF h1 h2, of "''data: c\<newline>\<newline>''"]
  have "events (consumeSseEvents
      (''data: a\<newline>id: 7\<newline>data:   b'' @ [NL, NL] @ ''data: c\<newline>\<newline>'')) =
     [''a\<newline>b'', ''c'']"
    by (simp only: v)
  with h1 h2 show ?thesis by blast
qed

text \<open>
  C7, as the specification words it, fails: after \<^verbatim>\<open>data:\<close> and two spaces the program
  yields \<^verbatim>\<open>x\<close>, where removing one space only would leave a space before it.
\<close>

theorem one_space_counterexample:
  "events (consumeSseEvents (''data:  x'' @ [NL, NL])) = [''x''] \<and>
   spec_region_payload ''data:  x'' = '' x''"
  by code_simp

section \<open>Properties of the client\<close>

lemma handle_payload_response:
  assumes "els tone = Some el"
  shows "map_option responseText (handle_payload P d els tone) =
     Some (responseText el @
       (if frame_tone P d = Some tone \<and> \<not> thinking_throws P d then frame_response P d else []))"
  using assms
  by (auto simp: handle_payload_def handle_thinking_def handle_response_def frame_tone_def
      frame_response_def thinking_throws_def fragment_def append_thinking_def append_response_def
      split: option.splits)

lemma handle_payload_thinking:
  assumes "els tone = Some el"
  shows "map_option thinkingText (handle_payload P d els tone) =
     Some (thinkingText el @ (if frame_tone P d = Some tone then frame_thinking P d else []))"
  using assms
  by (auto simp: handle_payload_def handle_thinking_def handle_response_def frame_tone_def
      frame_thinking_def fragment_def append_thinking_def append_response_def
      split: option.splits)

lemma handle_payload_dom: "dom (handle_payload P d els) = dom els"
  by (auto simp: handle_payload_def handle_thinking_def handle_response_def append_thinking_def
      append_response_def split: option.splits if_splits)


lemma process_events_append:
  "process_events P (xs @ ys) els =
     (if snd (process_events P xs els) then process_events P xs els
      else process_events P ys (fst (process_events P xs els)))"
  by (induction xs arbitrary: els) simp_all

lemma process_events_sawDone: "snd (process_events P xs els) \<longleftrightarrow> DONE \<in> set xs"
  by (induction xs arbitrary: els) auto

lemma process_events_response:
  assumes "els tone = Some el"
  shows "map_option responseText (fst (process_events P xs els) tone) =
     Some (responseText el @
       concat (map (frame_response P)
         (filter (\<lambda>d. frame_tone P d = Some tone \<and> \<not> thinking_throws P d)
           (takeWhile (\<lambda>d. d \<noteq> DONE) xs))))"
  using assms
proof (induction xs arbitrary: els el)
  case Nil
  then show ?case by simp
next
  case (Cons d xs)
  show ?case
  proof (cases "d = DONE")
    case True
    with Cons.prems show ?thesis by simp
  next
    case False
    from handle_payload_response [of els tone el P d, OF Cons.prems]
    obtain el' where el': "handle_payload P d els tone = Some el'"
      and r: "responseText el' =
        responseText el @
        (if frame_tone P d = Some tone \<and> \<not> thinking_throws P d then frame_response P d else [])"
      by auto
    from Cons.IH [of "handle_payload P d els" el', OF el'] False r show ?thesis by auto
  qed
qed

lemma process_events_thinking:
  assumes "els tone = Some el"
  shows "map_option thinkingText (fst (process_events P xs els) tone) =
     Some (thinkingText el @
       concat (map (frame_thinking P)
         (filter (\<lambda>d. frame_tone P d = Some tone) (takeWhile (\<lambda>d. d \<noteq> DONE) xs))))"
  using assms
proof (induction xs arbitrary: els el)
  case Nil
  then show ?case by simp
next
  case (Cons d xs)
  show ?case
  proof (cases "d = DONE")
    case True
    with Cons.prems show ?thesis by simp
  next
    case False
    from handle_payload_thinking [of els tone el P d, OF Cons.prems]
    obtain el' where el': "handle_payload P d els tone = Some el'"
      and r: "thinkingText el' =
        thinkingText el @ (if frame_tone P d = Some tone then frame_thinking P d else [])"
      by auto
    from Cons.IH [of "handle_payload P d els" el', OF el'] False r show ?thesis by auto
  qed
qed

lemma read_loop_events:
  assumes "consumeSseEvents buf = \<lparr>events = [], buffer = buf\<rparr>"
  shows "read_loop P chunks buf els =
     fst (process_events P (events (consumeSseEvents (buf @ concat chunks @ [NL, NL]))) els)"
  using assms
proof (induction chunks arbitrary: buf els)
  case Nil
  then show ?case by simp
next
  case (Cons chunk chunks)
  define parsed where "parsed = consumeSseEvents (buf @ chunk)"
  define later where "later = events (consumeSseEvents (buffer parsed @ concat chunks @ [NL, NL]))"
  have settled: "consumeSseEvents (buffer parsed) = \<lparr>events = [], buffer = buffer parsed\<rparr>"
    unfolding parsed_def by (rule consume_buffer_settled)
  have "consumeSseEvents ((buf @ chunk) @ concat chunks @ [NL, NL]) =
      \<lparr>events = events parsed @ later,
       buffer = buffer (consumeSseEvents (buffer parsed @ concat chunks @ [NL, NL]))\<rparr>"
    unfolding parsed_def later_def by (rule consume_append)
  then have all: "events (consumeSseEvents (buf @ concat (chunk # chunks) @ [NL, NL])) =
      events parsed @ later"
    by simp
  obtain e sawDone where pe: "process_events P (events parsed) els = (e, sawDone)"
    by (cases "process_events P (events parsed) els")
  have unfold: "read_loop P (chunk # chunks) buf els =
      (if sawDone then e else read_loop P chunks (buffer parsed) e)"
    by (simp add: parsed_def [symmetric] pe)
  show ?case
  proof (cases sawDone)
    case True
    with pe show ?thesis
      by (simp only: unfold all process_events_append) simp
  next
    case False
    have "read_loop P chunks (buffer parsed) e = fst (process_events P later e)"
      unfolding later_def by (rule Cons.IH [OF settled])
    with False pe show ?thesis
      by (simp only: unfold all process_events_append) simp
  qed
qed

lemma consume_empty: "consumeSseEvents [] = \<lparr>events = [], buffer = []\<rparr>"
  by (simp add: consumeSseEvents_def replace_char_def sse_loop_None)

lemma stream_exchange_events:
  "stream_exchange P chunks =
     fst (process_events P (events (consumeSseEvents (concat chunks @ [NL, NL]))) initial_elements)"
  using read_loop_events [OF consume_empty, of P chunks initial_elements]
  by (simp add: stream_exchange_def)

lemma initial_elements_tone:
  "tone \<in> set tones \<Longrightarrow> initial_elements tone = Some \<lparr>responseText = [], thinkingText = []\<rparr>"
  by (auto simp: initial_elements_def tones_def)

text \<open>
  C3, as the program has it. After the exchange, the \<^verbatim>\<open>responseText\<close> of a variant is the
  concatenation, in arrival order, of the response fragments of the decoded payloads, up
  to the terminal sentinel, that name the variant and whose thinking value does not throw
  when it is converted; payloads that name another tone or none contribute nothing, and
  neither does a response value that cannot be converted.
\<close>

theorem response_text_is_concatenation:
  assumes "tone \<in> set tones"
  shows "map_option responseText (stream_exchange JSON_parse chunks tone) =
     Some (concat (map (frame_response JSON_parse)
       (filter (\<lambda>data. frame_tone JSON_parse data = Some tone \<and>
                        \<not> thinking_throws JSON_parse data)
         (takeWhile (\<lambda>data. data \<noteq> DONE)
           (events (consumeSseEvents (concat chunks @ [NL, NL])))))))"
  using process_events_response [of initial_elements tone _ JSON_parse,
      OF initial_elements_tone [OF assms]]
  by (simp add: stream_exchange_events)


theorem response_text_is_concatenation_witness:
  \<open>''friendly'' \<in> set tones \<and>
   map_option responseText
     (stream_exchange sample_parse
        [''data: {"tone":"friendly","response":"Hel"}\<newline>\<newline>data: {"to'',
         ''ne":"rude","response":"No"}\<newline>\<newline>data: {"response":"lost"}\<newline>'',
         ''\<newline>data: {"tone":"angry","response":"Grr"}\<newline>\<newline>'',
         ''data: {"tone":"friendly","response":"lo"}'']
        ''friendly'') = Some ''Hello''\<close>
proof -
  have h: "''friendly'' \<in> set tones"
    by code_simp
  have v: \<open>concat (map (frame_response sample_parse)
       (filter (\<lambda>data. frame_tone sample_parse data = Some ''friendly'' \<and>
                        \<not> thinking_throws sample_parse data)
         (takeWhile (\<lambda>data. data \<noteq> DONE)
           (events (consumeSseEvents (concat
        [''data: {"tone":"friendly","response":"Hel"}\<newline>\<newline>data: {"to'',
         ''ne":"rude","response":"No"}\<newline>\<newline>data: {"response":"lost"}\<newline>'',
         ''\<newline>data: {"tone":"angry","response":"Grr"}\<newline>\<newline>'',
         ''data: {"tone":"friendly","response":"lo"}''] @ [NL, NL])))))) = ''Hello''\<close>
    by code_simp
  from response_text_is_concatenation [OF h, of sample_parse] h show ?thesis
    by (simp only: v)
qed

text \<open>
  C3, as the specification words it, fails: a payload that parses, names the variant
  \<^verbatim>\<open>friendly\<close> and carries the response \<^verbatim>\<open>X\<close> leaves the accumulator empty, because its
  thinking value, an object with a property \<^verbatim>\<open>toString\<close>, throws when it is appended and
  the \<^verbatim>\<open>catch\<close> ends the handling of the payload before the response is read.
\<close>

theorem response_lost_counterexample:
  \<open>events (consumeSseEvents
      (''data: {"tone":"friendly","thinking":{"toString":0},"response":"X"}\<newline>\<newline>'' @ [NL, NL])) =
     [''{"tone":"friendly","thinking":{"toString":0},"response":"X"}''] \<and>
   map_option responseText
     (stream_exchange sample_parse
        [''data: {"tone":"friendly","thinking":{"toString":0},"response":"X"}\<newline>\<newline>'']
        ''friendly'') = Some [] \<and>
   spec_response_text sample_parse ''friendly''
     [''{"tone":"friendly","thinking":{"toString":0},"response":"X"}''] = ''X''\<close>
  by code_simp

text \<open>
  C8. A payload that fails to parse is skipped alone. When the decoded payloads are some
  payloads, then one on which \<^verbatim>\<open>JSON.parse\<close> throws, then further payloads, the sentinel
  not among them, each variant ends with the fragments of the payloads before it followed
  by the fragments of the payloads after it, in its response text and in its thinking
  text: every payload on either side has been parsed and routed.
\<close>

theorem malformed_frame_skipped:
  assumes "events (consumeSseEvents (concat chunks @ [NL, NL])) = before @ [bad] @ after"
    and "JSON_parse bad = None"
    and "DONE \<notin> set (before @ [bad] @ after)"
    and "tone \<in> set tones"
  shows "map_option responseText (stream_exchange JSON_parse chunks tone) =
     Some (concat (map (frame_response JSON_parse)
             (filter (\<lambda>data. frame_tone JSON_parse data = Some tone \<and>
                              \<not> thinking_throws JSON_parse data) before)) @
           concat (map (frame_response JSON_parse)
             (filter (\<lambda>data. frame_tone JSON_parse data = Some tone \<and>
                              \<not> thinking_throws JSON_parse data) after))) \<and>
   map_option thinkingText (stream_exchange JSON_parse chunks tone) =
     Some (concat (map (frame_thinking JSON_parse)
             (filter (\<lambda>data. frame_tone JSON_parse data = Some tone) before)) @
           concat (map (frame_thinking JSON_parse)
             (filter (\<lambda>data. frame_tone JSON_parse data = Some tone) after)))"
proof -
  have all: "takeWhile (\<lambda>d. d \<noteq> DONE) (before @ [bad] @ after) = before @ [bad] @ after"
    using assms(3) by (intro takeWhile_eq_all_conv [THEN iffD2]) auto
  have bad: "frame_tone JSON_parse bad = None"
    using assms(2) by (simp add: frame_tone_def)
  from process_events_response [of initial_elements tone _ JSON_parse "before @ [bad] @ after",
      OF initial_elements_tone [OF assms(4)]]
    process_events_thinking [of initial_elements tone _ JSON_parse "before @ [bad] @ after",
      OF initial_elements_tone [OF assms(4)]]
  show ?thesis
    by (simp only: stream_exchange_events assms(1) all) (simp add: bad)
qed

theorem malformed_frame_skipped_witness:
  \<open>events (consumeSseEvents (concat
      [''data: {"tone":"friendly","response":"Hel"}\<newline>\<newline>data: {not'',
       '' json\<newline>\<newline>data: {"tone":"friendly","thinking":"hm"}\<newline>\<newline>'',
       ''data: {"tone":"friendly","response":"lo"}\<newline>\<newline>''] @ [NL, NL])) =
     [''{"tone":"friendly","response":"Hel"}''] @ [''{not json''] @
     [''{"tone":"friendly","thinking":"hm"}'', ''{"tone":"friendly","response":"lo"}''] \<and>
   sample_parse ''{not json'' = None \<and>
   map_option responseText
     (stream_exchange sample_parse
        [''data: {"tone":"friendly","response":"Hel"}\<newline>\<newline>data: {not'',
         '' json\<newline>\<newline>data: {"tone":"friendly","thinking":"hm"}\<newline>\<newline>'',
         ''data: {"tone":"friendly","response":"lo"}\<newline>\<newline>'']
        ''friendly'') = Some ''Hello'' \<and>
   map_option thinkingText
     (stream_exchange sample_parse
        [''data: {"tone":"friendly","response":"Hel"}\<newline>\<newline>data: {not'',
         '' json\<newline>\<newline>data: {"tone":"friendly","thinking":"hm"}\<newline>\<newline>'',
         ''data: {"tone":"friendly","response":"lo"}\<newline>\<newline>'']
        ''friendly'') = Some ''hm''\<close>
proof -
  have h1: \<open>events (consumeSseEvents (concat
      [''data: {"tone":"friendly","response":"Hel"}\<newline>\<newline>data: {not'',
       '' json\<newline>\<newline>data: {"tone":"friendly","thinking":"hm"}\<newline>\<newline>'',
       ''data: {"tone":"friendly","response":"lo"}\<newline>\<newline>''] @ [NL, NL])) =
     [''{"tone":"friendly","response":"Hel"}''] @ [''{not json''] @
     [''{"tone":"friendly","thinking":"hm"}'', ''{"tone":"friendly","response":"lo"}'']\<close>
    by code_simp
  have h2: \<open>sample_parse ''{not json'' = None\<close>
    by code_simp
  have h3: \<open>DONE \<notin> set ([''{"tone":"friendly","response":"Hel"}''] @ [''{not json''] @
     [''{"tone":"friendly","thinking":"hm"}'', ''{"tone":"friendly","response":"lo"}''])\<close>
    by code_simp
  have h4: "''friendly'' \<in> set tones"
    by code_simp
  have v1: \<open>concat (map (frame_response sample_parse)
             (filter (\<lambda>data. frame_tone sample_parse data = Some ''friendly'' \<and>
                              \<not> thinking_throws sample_parse data)
                [''{"tone":"friendly","response":"Hel"}''])) @
           concat (map (frame_response sample_parse)
             (filter (\<lambda>data. frame_tone sample_parse data = Some ''friendly'' \<and>
                              \<not> thinking_throws sample_parse data)
                [''{"tone":"friendly","thinking":"hm"}'',
                 ''{"tone":"friendly","response":"lo"}''])) = ''Hello''\<close>
    by code_simp
  have v2: \<open>concat (map (frame_thinking sample_parse)
             (filter (\<lambda>data. frame_tone sample_parse data = Some ''friendly'')
                [''{"tone":"friendly","response":"Hel"}''])) @
           concat (map (frame_thinking sample_parse)
             (filter (\<lambda>data. frame_tone sample_parse data = Some ''friendly'')
                [''{"tone":"friendly","thinking":"hm"}'',
                 ''{"tone":"friendly","response":"lo"}''])) = ''hm''\<close>
    by code_simp
  from malformed_frame_skipped
      [where before = \<open>[''{"tone":"friendly","response":"Hel"}'']\<close>
         and bad = \<open>''{not json''\<close>
         and after = \<open>[''{"tone":"friendly","thinking":"hm"}'',
                        ''{"tone":"friendly","response":"lo"}'']\<close>
         and JSON_parse = sample_parse and tone = \<open>''friendly''\<close>,
       OF h1 h2 h3 h4] h1 h2
  show ?thesis
    by (simp only: v1 v2)
qed

section \<open>Properties of the server\<close>

text \<open>
  C9. With the credential missing, empty or blank, the handler answers with one JSON error
  body and status 500, and makes no call to the model API; the answer is not a stream.
\<close>

theorem missing_credential_fails_fast:
  assumes "case Z_AI_API_KEY of None \<Rightarrow> True | Some apiKey \<Rightarrow> trim apiKey = []"
  shows "upstream_calls (handleChatRequest requestBody Z_AI_API_KEY up) = [] \<and>
     (response (handleChatRequest requestBody Z_AI_API_KEY up) =
        error_response ''Server configuration error: Z_AI_API_KEY is not set'' \<or>
      response (handleChatRequest requestBody Z_AI_API_KEY up) =
        error_response ''Failed to process request'')"
  using assms
  by (auto simp: handleChatRequest_def split: option.splits)

theorem missing_credential_fails_fast_witness:
  \<open>(case Some ''  '' of None \<Rightarrow> True | Some apiKey \<Rightarrow> trim apiKey = []) \<and>
   upstream_calls (handleChatRequest
      (Some (JObj [(''messages'',
         JArr [JObj [(''role'', JStr ''user''), (''content'', JStr ''hi'')]])]))
      (Some ''  '') \<lparr>opens = \<lambda>tone. True, arrivals = []\<rparr>) = [] \<and>
   (response (handleChatRequest
      (Some (JObj [(''messages'',
         JArr [JObj [(''role'', JStr ''user''), (''content'', JStr ''hi'')]])]))
      (Some ''  '') \<lparr>opens = \<lambda>tone. True, arrivals = []\<rparr>) =
      error_response ''Server configuration error: Z_AI_API_KEY is not set'' \<or>
    response (handleChatRequest
      (Some (JObj [(''messages'',
         JArr [JObj [(''role'', JStr ''user''), (''content'', JStr ''hi'')]])]))
      (Some ''  '') \<lparr>opens = \<lambda>tone. True, arrivals = []\<rparr>) =
      error_response ''Failed to process request'')\<close>
proof -
  have h: \<open>case Some ''  '' of None \<Rightarrow> True | Some apiKey \<Rightarrow> trim apiKey = []\<close>
    by code_simp
  from missing_credential_fails_fast [of \<open>Some ''  ''\<close>, OF h] h show ?thesis
    by blast
qed

subsection \<open>The stream as the client decodes it\<close>

lemma consume_frame:
  assumes "json_line j"
  shows "consumeSseEvents ((''data: '' @ j @ [NL, NL]) @ rest) =
     \<lparr>events = j # events (consumeSseEvents rest), buffer = buffer (consumeSseEvents rest)\<rparr>"
proof -
  define region where "region = ''data: '' @ j"
  from assms have nl: "NL \<notin> set region" and cr: "CR \<notin> set region"
    by (auto simp: json_line_def region_def NL_def CR_def)
  from assms obtain r where j: "j = CHR ''{'' # r" by (auto simp: json_line_def prefix_def)
  have "collect_data_lines [region] [] = [j]"
    by (simp add: region_def startsWith_def trimStart_def is_space_def j)
  then have "region_events region = [j]"
    by (simp add: region_events_def split_on_no_sep [OF nl] j)
  with consume_region [OF cr indexOf_no_NL [OF nl], of rest] show ?thesis
    by (simp add: region_def)
qed

lemma frame_payload_eq: "frame_payload (''data: '' @ j @ [NL, NL]) = j"
  by (simp add: frame_payload_def)

lemma consume_frames:
  assumes "\<forall>f \<in> set fs. \<exists>j. json_line j \<and> f = ''data: '' @ j @ [NL, NL]"
  shows "consumeSseEvents (concat fs) = \<lparr>events = map frame_payload fs, buffer = []\<rparr>"
  using assms
proof (induction fs)
  case Nil
  show ?case by (simp add: consume_empty)
next
  case (Cons f fs)
  then obtain j where j: "json_line j" and f: "f = ''data: '' @ j @ [NL, NL]" by auto
  from Cons have IH: "consumeSseEvents (concat fs) = \<lparr>events = map frame_payload fs, buffer = []\<rparr>"
    by simp
  have "consumeSseEvents (concat (f # fs)) =
      consumeSseEvents ((''data: '' @ j @ [NL, NL]) @ concat fs)"
    by (simp add: f)
  also have "\<dots> = \<lparr>events = j # map frame_payload fs, buffer = []\<rparr>"
    by (simp only: consume_frame [OF j] IH) simp
  finally show ?case
    by (simp only: list.map f frame_payload_eq)
qed

lemma hex_digit_plain: "n < 16 \<Longrightarrow> hex_digit n \<noteq> NL \<and> hex_digit n \<noteq> CR"
proof -
  assume "n < 16"
  then have "hex_digit n \<in> set ''0123456789abcdef''"
    unfolding hex_digit_def by (intro nth_mem) simp
  then show ?thesis by (auto simp: NL_def CR_def)
qed

lemma quote_char_plain: "NL \<notin> set (quote_char c) \<and> CR \<notin> set (quote_char c)"
proof (cases "(of_char c :: nat) < 0x20")
  case True
  then have "(of_char c :: nat) div 16 < 16" "(of_char c :: nat) mod 16 < 16" by simp_all
  from this [THEN hex_digit_plain] show ?thesis
    by (auto simp: quote_char_def NL_def CR_def)
next
  case False
  then have "c \<noteq> NL" "c \<noteq> CR" by (auto simp: NL_def CR_def)
  with False show ?thesis by (auto simp: quote_char_def NL_def CR_def)
qed

lemma quote_plain: "NL \<notin> set (quote s) \<and> CR \<notin> set (quote s)"
  using quote_char_plain by (auto simp: quote_def NL_def CR_def)

lemma token_object_line:
  "json_line (stringify (JObj [(k1, JStr v1), (k2, JStr v2)]))"
  using quote_plain [of k1] quote_plain [of v1] quote_plain [of k2] quote_plain [of v2]
  by (auto simp: json_line_def NL_def CR_def)

lemma token_frame_line:
  "\<exists>j. json_line j \<and> token_frame tone kind part = ''data: '' @ j @ [NL, NL]"
  using token_object_line by (auto simp: token_frame_def)

lemma chunk_frames_tokens:
  "f \<in> set (chunk_frames tone d) \<Longrightarrow>
     \<exists>kind part. (kind = ''thinking'' \<or> kind = ''response'') \<and> part \<noteq> [] \<and>
        f = token_frame tone kind part"
  by (auto simp: chunk_frames_def token_frame_def Let_def split: if_splits)

lemma pump_tokens:
  assumes "set running \<subseteq> set tones"
    and "\<forall>f \<in> set enqueued. \<exists>tone kind part. tone \<in> set tones \<and>
           (kind = ''thinking'' \<or> kind = ''response'') \<and> part \<noteq> [] \<and>
           f = token_frame tone kind part"
  shows "\<forall>f \<in> set (frames (pump arrived running enqueued)).
           \<exists>tone kind part. tone \<in> set tones \<and>
             (kind = ''thinking'' \<or> kind = ''response'') \<and> part \<noteq> [] \<and>
             f = token_frame tone kind part"
  using assms
proof (induction arrived running enqueued rule: pump.induct)
  case (1 running enqueued)
  then show ?case by simp
next
  case (2 tone d later running enqueued)
  show ?case
  proof (cases "tone \<in> set running")
    case True
    with "2.prems"(1) have "tone \<in> set tones" by auto
    with chunk_frames_tokens [of _ tone d] "2.prems"(2)
    have "\<forall>f \<in> set (enqueued @ chunk_frames tone d). \<exists>tone kind part. tone \<in> set tones \<and>
           (kind = ''thinking'' \<or> kind = ''response'') \<and> part \<noteq> [] \<and>
           f = token_frame tone kind part"
      by (metis Un_iff set_append)
    from "2.IH"(1) [OF True "2.prems"(1) this] True show ?thesis by simp
  next
    case False
    from "2.IH"(2) [OF False "2.prems"] False show ?thesis by simp
  qed
next
  case (3 tone later running enqueued)
  show ?case
  proof (cases "removeAll tone running = []")
    case True
    with "3.prems"(2) show ?thesis by simp
  next
    case False
    from "3.prems"(1) have "set (removeAll tone running) \<subseteq> set tones" by auto
    from "3.IH" [OF False this "3.prems"(2)] False show ?thesis by simp
  qed
next
  case (4 tone later running enqueued)
  show ?case
  proof (cases "tone \<in> set running")
    case True
    with "4.prems"(2) show ?thesis by simp
  next
    case False
    from "4.IH" [OF False "4.prems"] False show ?thesis by simp
  qed
qed

lemma pump_closed:
  "channel (pump arrived running enqueued) = Closed \<Longrightarrow>
     \<forall>tone \<in> set running. Ended tone \<in> set arrived"
proof (induction arrived running enqueued rule: pump.induct)
  case (3 tone later running enqueued)
  show ?case
  proof (cases "removeAll tone running = []")
    case True
    then have "set (removeAll tone running) = {}" by simp
    then have "set running \<subseteq> {tone}" by auto
    then show ?thesis by auto
  next
    case False
    from "3.IH" [OF False] "3.prems" False
    have "\<forall>t \<in> set (removeAll tone running). Ended t \<in> set later" by simp
    then show ?thesis by auto
  qed
qed (auto split: if_splits)

lemma pump_errored:
  "channel (pump arrived running enqueued) = Errored \<Longrightarrow>
     \<exists>tone \<in> set running. Failed tone \<in> set arrived"
proof (induction arrived running enqueued rule: pump.induct)
  case (3 tone later running enqueued)
  show ?case
  proof (cases "removeAll tone running = []")
    case True
    with "3.prems" show ?thesis by simp
  next
    case False
    from "3.IH" [OF False] "3.prems" False
    have "\<exists>t \<in> set (removeAll tone running). Failed t \<in> set later" by simp
    then show ?thesis by auto
  qed
qed (auto split: if_splits)

lemma pump_completes:
  "running \<noteq> [] \<Longrightarrow> \<forall>tone \<in> set running. Ended tone \<in> set arrived \<Longrightarrow>
     \<forall>tone. Failed tone \<notin> set arrived \<Longrightarrow>
     channel (pump arrived running enqueued) = Closed"
proof (induction arrived running enqueued rule: pump.induct)
  case (1 running enqueued)
  then show ?case by (cases running) auto
next
  case (2 tone d later running enqueued)
  then show ?case by auto
next
  case (3 tone later running enqueued)
  show ?case
  proof (cases "removeAll tone running = []")
    case True
    then show ?thesis by simp
  next
    case False
    have "\<forall>t \<in> set (removeAll tone running). Ended t \<in> set later"
      using "3.prems"(2) by auto
    moreover have "\<forall>t. Failed t \<notin> set later" using "3.prems"(3) by auto
    ultimately show ?thesis using "3.IH" [OF False False] False by simp
  qed
next
  case (4 tone later running enqueued)
  then show ?case by auto
qed

lemma tokens_decoded:
  assumes "\<forall>f \<in> set fs. \<exists>tone kind part. tone \<in> set tones \<and>
             (kind = ''thinking'' \<or> kind = ''response'') \<and> part \<noteq> [] \<and>
             f = token_frame tone kind part"
  shows "consumeSseEvents (concat fs) = \<lparr>events = map frame_payload fs, buffer = []\<rparr> \<and>
     DONE \<notin> set (map frame_payload fs) \<and> spec_terminal_frame \<notin> set fs"
proof -
  from assms token_frame_line
  have lines: "\<forall>f \<in> set fs. \<exists>j. json_line j \<and> f = ''data: '' @ j @ [NL, NL]"
    by metis
  then have dec: "consumeSseEvents (concat fs) = \<lparr>events = map frame_payload fs, buffer = []\<rparr>"
    by (rule consume_frames)
  have payload: "frame_payload f \<noteq> DONE \<and> f \<noteq> spec_terminal_frame" if "f \<in> set fs" for f
  proof -
    from lines that obtain j where j: "json_line j" and f: "f = ''data: '' @ j @ [NL, NL]" by blast
    have "frame_payload f = j" unfolding f by (rule frame_payload_eq)
    moreover from j have "j \<noteq> DONE" by (auto simp: json_line_def DONE_def)
    moreover from j have "f \<noteq> spec_terminal_frame"
      unfolding f by (auto simp: json_line_def spec_terminal_frame_def)
    ultimately show ?thesis by simp
  qed
  then have "DONE \<notin> set (map frame_payload fs)" and "spec_terminal_frame \<notin> set fs"
    by fastforce+
  with dec show ?thesis by simp
qed

text \<open>
  C1, as the program has it. The multiplexer emits no terminal sentinel. Every chunk of
  the outbound channel is a token frame of one of the three variants, with a fragment of
  thinking or of response that is not empty; none is the sentinel frame, and the decoder
  of the client reads the channel back as the JSON texts of the frames, one payload per
  frame with nothing left over, the sentinel \<^verbatim>\<open>[DONE]\<close> not among them. The channel is
  closed only when all three streams have ended and put in error only when one has failed,
  and when all three streams end and none fails, it is closed.
\<close>

theorem no_terminal_sentinel:
  "(\<forall>f \<in> set (frames (multiplex arrived)).
      \<exists>tone kind part. tone \<in> set tones \<and>
        (kind = ''thinking'' \<or> kind = ''response'') \<and> part \<noteq> [] \<and>
        f = token_frame tone kind part) \<and>
   spec_terminal_frame \<notin> set (frames (multiplex arrived)) \<and>
   consumeSseEvents (concat (frames (multiplex arrived))) =
     \<lparr>events = map frame_payload (frames (multiplex arrived)), buffer = []\<rparr> \<and>
   DONE \<notin> set (events (consumeSseEvents (concat (frames (multiplex arrived))))) \<and>
   (channel (multiplex arrived) = Closed \<longrightarrow>
      (\<forall>tone \<in> set tones. Ended tone \<in> set arrived)) \<and>
   (channel (multiplex arrived) = Errored \<longrightarrow>
      (\<exists>tone \<in> set tones. Failed tone \<in> set arrived)) \<and>
   ((\<forall>tone \<in> set tones. Ended tone \<in> set arrived) \<and>
    (\<forall>tone. Failed tone \<notin> set arrived) \<longrightarrow>
      channel (multiplex arrived) = Closed)"
proof -
  have tokens: "\<forall>f \<in> set (frames (multiplex arrived)).
      \<exists>tone kind part. tone \<in> set tones \<and>
        (kind = ''thinking'' \<or> kind = ''response'') \<and> part \<noteq> [] \<and>
        f = token_frame tone kind part"
    unfolding multiplex_def by (rule pump_tokens) simp_all
  have "tones \<noteq> []" by (simp add: tones_def)
  from tokens_decoded [OF tokens] tokens pump_closed [of arrived tones "[]"]
    pump_errored [of arrived tones "[]"] pump_completes [OF this, of arrived "[]"]
  show ?thesis
    unfolding multiplex_def [symmetric] by simp
qed

theorem no_terminal_sentinel_witness:
  \<open>Ended ''friendly'' \<in> set
      [Chunk ''friendly'' (Some \<lparr>reasoning_content = None, content = Some ''Hi''\<rparr>),
       Ended ''friendly'',
       Chunk ''rude'' (Some \<lparr>reasoning_content = Some ''hm'', content = None\<rparr>),
       Chunk ''professional'' None, Ended ''professional'', Ended ''rude''] \<and>
   channel (multiplex
      [Chunk ''friendly'' (Some \<lparr>reasoning_content = None, content = Some ''Hi''\<rparr>),
       Ended ''friendly'',
       Chunk ''rude'' (Some \<lparr>reasoning_content = Some ''hm'', content = None\<rparr>),
       Chunk ''professional'' None, Ended ''professional'', Ended ''rude'']) = Closed \<and>
   events (consumeSseEvents (concat (frames (multiplex
      [Chunk ''friendly'' (Some \<lparr>reasoning_content = None, content = Some ''Hi''\<rparr>),
       Ended ''friendly'',
       Chunk ''rude'' (Some \<lparr>reasoning_content = Some ''hm'', content = None\<rparr>),
       Chunk ''professional'' None, Ended ''professional'', Ended ''rude''])))) =
     [''{"tone":"friendly","response":"Hi"}'', ''{"tone":"rude","thinking":"hm"}'']\<close>
proof -
  have h: \<open>channel (multiplex
      [Chunk ''friendly'' (Some \<lparr>reasoning_content = None, content = Some ''Hi''\<rparr>),
       Ended ''friendly'',
       Chunk ''rude'' (Some \<lparr>reasoning_content = Some ''hm'', content = None\<rparr>),
       Chunk ''professional'' None, Ended ''professional'', Ended ''rude'']) = Closed\<close>
    by code_simp
  have t: "''friendly'' \<in> set tones"
    by code_simp
  have v: \<open>map frame_payload (frames (multiplex
      [Chunk ''friendly'' (Some \<lparr>reasoning_content = None, content = Some ''Hi''\<rparr>),
       Ended ''friendly'',
       Chunk ''rude'' (Some \<lparr>reasoning_content = Some ''hm'', content = None\<rparr>),
       Chunk ''professional'' None, Ended ''professional'', Ended ''rude''])) =
     [''{"tone":"friendly","response":"Hi"}'', ''{"tone":"rude","thinking":"hm"}'']\<close>
    by code_simp
  from no_terminal_sentinel [of
      \<open>[Chunk ''friendly'' (Some \<lparr>reasoning_content = None, content = Some ''Hi''\<rparr>),
       Ended ''friendly'',
       Chunk ''rude'' (Some \<lparr>reasoning_content = Some ''hm'', content = None\<rparr>),
       Chunk ''professional'' None, Ended ''professional'', Ended ''rude'']\<close>] h t
  show ?thesis
    by (simp only: v sse_result.simps)
qed

text \<open>
  C1, as the specification words it, fails: an exchange in which the three streams end
  closes the channel with the token frames alone on it, the sentinel frame not among them
  and not the last.
\<close>

theorem terminal_sentinel_counterexample:
  \<open>channel (multiplex
      [Chunk ''friendly'' (Some \<lparr>reasoning_content = None, content = Some ''Hi''\<rparr>),
       Chunk ''rude'' (Some \<lparr>reasoning_content = Some ''hm'', content = None\<rparr>),
       Chunk ''professional'' None,
       Ended ''friendly'', Ended ''rude'', Ended ''professional'']) = Closed \<and>
   frames (multiplex
      [Chunk ''friendly'' (Some \<lparr>reasoning_content = None, content = Some ''Hi''\<rparr>),
       Chunk ''rude'' (Some \<lparr>reasoning_content = Some ''hm'', content = None\<rparr>),
       Chunk ''professional'' None,
       Ended ''friendly'', Ended ''rude'', Ended ''professional'']) =
     [''data: {"tone":"friendly","response":"Hi"}\<newline>\<newline>'',
      ''data: {"tone":"rude","thinking":"hm"}\<newline>\<newline>''] \<and>
   count_list (frames (multiplex
      [Chunk ''friendly'' (Some \<lparr>reasoning_content = None, content = Some ''Hi''\<rparr>),
       Chunk ''rude'' (Some \<lparr>reasoning_content = Some ''hm'', content = None\<rparr>),
       Chunk ''professional'' None,
       Ended ''friendly'', Ended ''rude'', Ended ''professional''])) spec_terminal_frame = 0\<close>
  by code_simp

section \<open>Properties of the renderer\<close>

subsection \<open>Escaping\<close>

lemma escapeHtml_append: "escapeHtml (a @ b) = escapeHtml a @ escapeHtml b"
  by (simp add: escapeHtml_def replace_char_append)

lemma escapeHtml_single: "escapeHtml [c] = html_entity c"
  by (simp add: escapeHtml_def replace_char_def html_entity_def)

lemma escapeHtml_entities: "escapeHtml s = concat (map html_entity s)"
proof (induction s)
  case Nil
  show ?case by (simp add: escapeHtml_def replace_char_def)
next
  case (Cons c s)
  have "escapeHtml (c # s) = escapeHtml ([c] @ s)" by simp
  also have "\<dots> = html_entity c @ escapeHtml s"
    by (simp only: escapeHtml_append escapeHtml_single)
  finally show ?case by (simp add: Cons.IH)
qed

lemma html_entity_chars:
  "set (html_entity c) \<inter> {CHR ''<'', CHR ''>'', CHR 0x22, CHR 0x27} = {}"
  by (simp add: html_entity_def)

lemma escaped_chars:
  "set (concat (map html_entity s)) \<inter> {CHR ''<'', CHR ''>'', CHR 0x22, CHR 0x27} = {}"
  using html_entity_chars by (induction s) auto



subsection \<open>Link targets\<close>

lemma sanitize_url_cases: "sanitize_url url = trim url \<or> sanitize_url url = ''#''"
  by (simp add: sanitize_url_def Let_def)





lemma indexOf_prefix_found:
  "indexOf p [c] = Some i \<Longrightarrow> indexOf (p @ r) [c] = Some i"
  by (rule indexOf_append)






subsection \<open>Unterminated fences\<close>




lemma pre_free_Nil [simp]: "pre_free []"
  by (simp add: pre_free_def)

lemma pre_free_single [simp]: "pre_free [c]"
  by (simp add: pre_free_def sublist_code)











lemma sublist_trim: "sublist (trim s) s"
proof -
  have "sublist (trimEnd t) t" for t
    unfolding trimEnd_def by (simp add: sublist_rev_left)
  then have "sublist (trim s) (trimStart s)" unfolding trim_def .
  moreover have "sublist (trimStart s) s" unfolding trimStart_def by simp
  ultimately show ?thesis using sublist_order.order.trans by blast
qed



lemma split_on_sublists:
  "(\<forall>l \<in> set (split_on sep s). sublist l s) \<and> prefix (hd (split_on sep s)) s \<and> split_on sep s \<noteq> []"
proof (induction s)
  case Nil
  show ?case by simp
next
  case (Cons c cs)
  show ?case
  proof (cases "c = sep")
    case True
    with Cons show ?thesis by (auto simp: sublist_Cons_right)
  next
    case False
    from Cons obtain line lines where sp: "split_on sep cs = line # lines"
      by (cases "split_on sep cs") auto
    with Cons have "prefix line cs" and "\<forall>l \<in> set lines. sublist l cs" by auto
    with sp False show ?thesis by (auto simp: sublist_Cons_right)
  qed
qed





lemma replace_char_Cons:
  "replace_char c r (x # t) = (if x = c then r else [x]) @ replace_char c r t"
  by (simp add: replace_char_def)



lemma render_segments_simps:
  "render_segments [] = []"
  "render_segments (\<lparr>segment_text = t, safe = True\<rparr> # segs) = t @ render_segments segs"
  "render_segments (\<lparr>segment_text = t, safe = False\<rparr> # segs) =
     replace_char NL ''<br>'' t @ render_segments segs"
  "render_segments (a @ b) = render_segments a @ render_segments b"
  by (simp_all add: render_segments_def)

lemma pending_rendered:
  "render_segments (if pending \<noteq> [] then [\<lparr>segment_text = pending, safe = False\<rparr>] else []) =
     replace_char NL ''<br>'' pending"
  by (simp add: render_segments_simps) (simp add: replace_char_def)




























subsection \<open>Apostrophes\<close>

lemma plain_sub: "sublist a b \<Longrightarrow> plain b \<Longrightarrow> plain a"
  using set_mono_sublist [of a b] by (auto simp: plain_def)

lemma plain_append [simp]: "plain (a @ b) \<longleftrightarrow> plain a \<and> plain b"
  by (auto simp: plain_def)

lemma plain_Cons: "plain (c # s) \<longleftrightarrow> c \<noteq> CHR 0x27 \<and> plain s"
  by (auto simp: plain_def)

lemma plain_Nil [simp]: "plain []"
  by (simp add: plain_def)

lemma gsub_plain:
  assumes "\<And>prev s r n. plain s \<Longrightarrow> m prev s = Some (r, n) \<Longrightarrow> plain r"
    and "plain s"
  shows "plain (gsub m prev s)"
  using assms
proof (induction m prev s rule: gsub.induct)
  case (1 m prev)
  show ?case by simp
next
  case (2 m prev c cs)
  note good = "2.prems"(1)
  note whole = "2.prems"(2)
  then have c: "c \<noteq> CHR 0x27" and cs: "plain cs" by (simp_all add: plain_Cons)
  show ?case
  proof (cases "m prev (c # cs)")
    case None
    from "2.IH"(1) [OF None good cs] None c show ?thesis by (simp add: plain_Cons)
  next
    case (Some found)
    obtain r k where found: "found = (r, k)" by (cases found)
    show ?thesis
    proof (cases k)
      case 0
      from "2.IH"(2) [OF Some found [symmetric] 0 good cs] Some found 0 c show ?thesis
        by (simp add: plain_Cons)
    next
      case (Suc n)
      have "plain (drop n cs)" using _ cs by (rule plain_sub) simp
      from "2.IH"(3) [OF Some found [symmetric] Suc good this]
      have IH: "plain (gsub m (Some ((c # cs) ! n)) (drop n cs))" .
      have "m prev (c # cs) = Some (r, k)" using Some found by simp
      from good [OF whole this] IH Some found Suc show ?thesis by simp
    qed
  qed
qed

lemma fence_plain:
  assumes "plain s" and "fence_match prev s = Some (r, n)"
  shows "plain r"
proof -
  from assms(2) obtain c code i
    where d: "dropWhile is_word (drop 3 s) = c # code" and r: "r = ''<pre><code>'' @ trim (take i code) @ ''</code></pre>''"
    by (auto simp: fence_match_def split: if_splits list.splits option.splits)
  have "sublist (c # code) s"
    using sublist_dropWhile [of is_word "drop 3 s"] sublist_drop [of 3 s] sublist_order.order.trans
    unfolding d by blast
  moreover have "sublist code (c # code)" by (simp add: sublist_Cons_right)
  moreover have "sublist (trim (take i code)) code"
    using sublist_trim [of "take i code"] sublist_take [of i code] sublist_order.order.trans by blast
  ultimately have "sublist (trim (take i code)) s"
    using sublist_order.order.trans by blast
  then have "plain (trim (take i code))" using assms(1) by (rule plain_sub)
  then show ?thesis by (simp add: r plain_def)
qed

lemma delimited_plain:
  assumes "plain open_tag" and "plain close_tag" and "plain s"
    and "delimited opening c closing open_tag close_tag prev s = Some (r, n)"
  shows "plain r"
proof -
  define inner where "inner = takeWhile (\<lambda>x. x \<noteq> c) (drop (length opening) s)"
  have "sublist inner (drop (length opening) s)" unfolding inner_def by simp
  then have "sublist inner s" using sublist_drop sublist_order.order.trans by blast
  then have "plain inner" using assms(3) by (rule plain_sub)
  moreover from assms(4) have "r = open_tag @ inner @ close_tag"
    by (auto simp: delimited_def Let_def inner_def split: if_splits)
  ultimately show ?thesis using assms(1,2) by simp
qed

lemma header_plain:
  assumes "plain open_tag" and "plain close_tag" and "plain s"
    and "header_match marker open_tag close_tag prev s = Some (r, n)"
  shows "plain r"
proof -
  define inner where "inner = takeWhile (\<lambda>x. \<not> is_line_terminator x) (drop (length marker) s)"
  have "sublist inner (drop (length marker) s)" unfolding inner_def by simp
  then have "sublist inner s" using sublist_drop sublist_order.order.trans by blast
  then have "plain inner" using assms(3) by (rule plain_sub)
  moreover from assms(4) have "r = open_tag @ inner @ close_tag"
    by (auto simp: header_match_def Let_def inner_def split: if_splits)
  ultimately show ?thesis using assms(1,2) by simp
qed

lemma blockquote_plain:
  assumes "plain s" and "blockquote_match prev s = Some (r, n)"
  shows "plain r"
proof -
  define inner where "inner = takeWhile (\<lambda>x. \<not> is_line_terminator x) (drop 2 s)"
  have "sublist inner (drop 2 s)" unfolding inner_def by simp
  then have "sublist inner s" using sublist_drop sublist_order.order.trans by blast
  then have "plain inner" using assms(1) by (rule plain_sub)
  moreover from assms(2) have "r = ''<blockquote>'' @ inner @ ''</blockquote>''"
    by (auto simp: blockquote_match_def Let_def inner_def split: if_splits)
  ultimately show ?thesis by (simp add: plain_def)
qed

lemma link_plain:
  assumes "plain s" and "link_match prev s = Some (r, n)"
  shows "plain r"
proof -
  define label where "label = takeWhile (\<lambda>x. x \<noteq> CHR '']'') (drop 1 s)"
  define s1 where "s1 = drop (1 + length label) s"
  define url where "url = takeWhile (\<lambda>x. x \<noteq> CHR '')'') (drop 2 s1)"
  from assms(2) have r: "r = link_replacement label url"
    by (auto simp: link_match_def Let_def label_def s1_def url_def split: if_splits)
  have "sublist label (drop 1 s)" unfolding label_def by simp
  then have "sublist label s" using sublist_drop sublist_order.order.trans by blast
  then have label: "plain label" using assms(1) by (rule plain_sub)
  have "sublist url (drop 2 s1)" unfolding url_def by simp
  then have "sublist url s1" using sublist_drop sublist_order.order.trans by blast
  moreover have "sublist s1 s" unfolding s1_def by simp
  ultimately have "sublist url s" using sublist_order.order.trans by blast
  with sublist_trim [of url] have "sublist (trim url) s"
    using sublist_order.order.trans by blast
  then have "plain (trim url)" using assms(1) by (rule plain_sub)
  moreover have "plain ''#''" by (simp add: plain_def)
  ultimately have "plain (sanitize_url url)"
    using sanitize_url_cases [of url] by auto
  with label show ?thesis
    unfolding r link_replacement_def by (simp add: plain_def)
qed

lemma join_plain: "(\<forall>l \<in> set ls. plain l) \<Longrightarrow> plain (join [NL] ls)"
  by (induction "[NL]" ls rule: join.induct) (simp_all add: plain_Cons NL_def)

lemma list_loop_plain:
  "(\<forall>l \<in> set lines. plain l) \<Longrightarrow> (\<forall>l \<in> set result. plain l) \<Longrightarrow>
     (\<forall>l \<in> set (list_loop lines inUl inOl result). plain l)"
proof (induction lines inUl inOl result rule: list_loop.induct)
  case (1 inUl inOl result)
  then show ?case by (auto simp: plain_def)
next
  case (2 line lines inUl inOl result)
  from "2.prems" have line: "plain line" and lines: "\<forall>l \<in> set lines. plain l" by simp_all
  have item: "plain (''<li>'' @ item @ ''</li>'')" if "sublist item line" for item
    using plain_sub [OF that line] by (simp add: plain_def)
  show ?case
  proof (cases "ul_item line")
    case (Some item)
    then have "sublist item line" by (auto simp: ul_item_def split: if_splits)
    from item [OF this]
    have "\<forall>l \<in> set (result @ (if inUl then [] else [''<ul>'']) @ [''<li>'' @ item @ ''</li>'']). plain l"
      using "2.prems"(2) by (auto simp: plain_def)
    from "2.IH"(3) [OF Some lines this] Some show ?thesis by simp
  next
    case None
    show ?thesis
    proof (cases "ol_item line")
      case (Some item)
      then have "item = drop 2 (drop (length (takeWhile is_digit line)) line)"
        by (auto simp: ol_item_def Let_def split: if_splits)
      then have "sublist item line"
        using sublist_drop sublist_order.order.trans by blast
      from item [OF this]
      have "\<forall>l \<in> set (result @ (if inOl then [] else [''<ol>'']) @ [''<li>'' @ item @ ''</li>'']). plain l"
        using "2.prems"(2) by (auto simp: plain_def)
      from "2.IH"(2) [OF None Some lines this] None Some show ?thesis by simp
    next
      case none: None
      have "\<forall>l \<in> set (result @ (if inUl then [''</ul>''] else []) @
                    (if inOl then [''</ol>''] else []) @ [line]). plain l"
        using "2.prems"(2) line by (auto simp: plain_def)
      from "2.IH"(1) [OF None none lines this] None none show ?thesis by simp
    qed
  qed
qed

lemma lists_plain:
  assumes "plain html"
  shows "plain (join [NL] (list_loop (split_on NL html) False False []))"
proof -
  have "\<forall>l \<in> set (split_on NL html). plain l"
    using split_on_sublists [of NL html] assms plain_sub by blast
  then have "\<forall>l \<in> set (list_loop (split_on NL html) False False []). plain l"
    by (rule list_loop_plain) simp
  then show ?thesis by (rule join_plain)
qed

lemma line_breaks_plain: "plain t \<Longrightarrow> plain (replace_char NL ''<br>'' t)"
  by (induction t) (simp_all add: replace_char_Cons plain_Cons, simp add: replace_char_def)

lemma segments_plain:
  "plain pending \<Longrightarrow> plain s \<Longrightarrow> plain (render_segments (segments_loop pending s))"
proof (induction pending s rule: segments_loop.induct)
  case (1 pending)
  then show ?case
    by (simp only: segments_loop.simps pending_rendered line_breaks_plain)
next
  case (2 pending c cs)
  from "2.prems" have c: "c \<noteq> CHR 0x27" and cs: "plain cs" by (simp_all add: plain_Cons)
  have pc: "plain (pending @ [c])" using "2.prems"(1) c by (simp add: plain_Cons)
  show ?case
  proof (cases "block_match (c # cs)")
    case None
    from "2.IH"(1) [OF None pc cs] None show ?thesis by simp
  next
    case (Some k)
    show ?thesis
    proof (cases k)
      case 0
      from "2.IH"(2) [OF Some 0 pc cs] Some 0 show ?thesis by simp
    next
      case (Suc n)
      have "plain (drop n cs)" using _ cs by (rule plain_sub) simp
      from "2.IH"(3) [OF Some Suc _ this]
      have R: "plain (render_segments (segments_loop [] (drop n cs)))" by simp
      have B: "plain (take (Suc n) (c # cs))"
        using _ "2.prems"(2) by (rule plain_sub) (rule sublist_take)
      define P where "P = replace_char NL ''<br>'' pending"
      define B where "B = take (Suc n) (c # cs)"
      define T where "T = render_segments (segments_loop [] (drop n cs))"
      have out: "render_segments (segments_loop pending (c # cs)) = P @ B @ T"
        using Some Suc
        by (simp only: segments_loop.simps option.case nat.case render_segments_simps
            pending_rendered P_def B_def T_def)
      from R B line_breaks_plain [OF "2.prems"(1)] have "plain (P @ B @ T)"
        by (simp only: plain_append P_def B_def T_def)
      then show ?thesis by (simp only: out)
    qed
  qed
qed

lemma substitutions_plain:
  assumes "plain escaped"
  shows "plain (markdown_substitutions escaped)"
proof -
  have lits: "plain ''<code>''" "plain ''</code>''" "plain ''<strong>''" "plain ''</strong>''"
    "plain ''<em>''" "plain ''</em>''" "plain ''<h3>''" "plain ''</h3>''"
    "plain ''<h2>''" "plain ''</h2>''" "plain ''<h1>''" "plain ''</h1>''"
    by (simp_all add: plain_def)
  have d: "plain (gsub (delimited opener c closer open_tag close_tag) prev s)"
    if "plain open_tag" "plain close_tag" "plain s" for opener c closer open_tag close_tag prev s
    using gsub_plain [of "delimited opener c closer open_tag close_tag" s prev]
      delimited_plain [OF that(1,2)] that(3) by blast
  have h: "plain (gsub (header_match marker open_tag close_tag) prev s)"
    if "plain open_tag" "plain close_tag" "plain s" for marker open_tag close_tag prev s
    using gsub_plain [of "header_match marker open_tag close_tag" s prev]
      header_plain [OF that(1,2)] that(3) by blast
  have f: "plain (gsub fence_match prev s)" if "plain s" for prev s
    using gsub_plain [of fence_match s prev] fence_plain that by blast
  have l: "plain (gsub link_match prev s)" if "plain s" for prev s
    using gsub_plain [of link_match s prev] link_plain that by blast
  have b: "plain (gsub blockquote_match prev s)" if "plain s" for prev s
    using gsub_plain [of blockquote_match s prev] blockquote_plain that by blast
  have n: "plain (replaceNewlinesOutsideBlocks s)" if "plain s" for s
    using segments_plain [of "[]" s] that by (simp add: replaceNewlinesOutsideBlocks_def)
  show ?thesis
    unfolding markdown_substitutions_def Let_def
    by (intro n b lists_plain l h [OF lits(11,12)] h [OF lits(9,10)] h [OF lits(7,8)]
        d [OF lits(5,6)] d [OF lits(3,4)] d [OF lits(1,2)] f assms)
qed

text \<open>
  No substitution of the renderer brings an apostrophe back: the rendered text of any
  input holds none, so an attribute value that the page writes between apostrophes cannot
  be closed by the rendered text.
\<close>

theorem rendered_without_apostrophe: "CHR 0x27 \<notin> set (parseMarkdown text)"
proof -
  have "plain (escapeHtml text)"
    using escaped_chars [of "text"] by (simp add: plain_def escapeHtml_entities)
  then have "plain (parseMarkdown text)"
    unfolding parseMarkdown_def by (rule substitutions_plain)
  then show ?thesis by (simp add: plain_def)
qed


end
